theory Spec2Isabelle
  imports Main
begin

section \<open>Data model of the skip list (db/skiplist.h)\<close>

text \<open>
  Member names of the C++ source end in an underscore (\<open>head_\<close>, \<open>next_\<close>, ...), which
  an Isabelle name cannot; the trailing underscore is dropped (\<open>next_\<close> becomes \<open>nexts\<close>).

  A \<open>Node*\<close> is modelled as the index of the node among the objects that \<open>NewNode\<close> has
  placed in arena memory, in allocation order; \<open>nullptr\<close> is \<open>None\<close>. A forward-pointer
  slot that has been allocated but not yet written holds \<open>None\<close> as well.

  Two kinds of run-time failure are values of the model: a failing \<open>assert\<close>, and an
  access outside an object (a null or dangling pointer, an index outside an array).
\<close>

datatype fault = AssertionFailed | InvalidAccess

datatype memory_order = memory_order_relaxed | memory_order_acquire | memory_order_release

type_synonym addr = nat

type_synonym ptr = "addr option"

record 'k Node =
  key :: 'k
  nexts :: "ptr list"

text \<open>Every atomic store the list performs is appended to a log, in program order.\<close>

datatype atomic_store =
  NextStore addr nat ptr memory_order
  | MaxHeightStore int memory_order

text \<open>
  \<open>compare_\<close> (the \<open>Comparator\<close> template parameter) is constant after construction and is
  passed to the functions as the parameter \<open>compare\<close>. The class \<open>Random\<close> of
  util/random.h is not part of the sources: its state is the type parameter \<open>'r\<close>, its
  constructor and its method \<open>OneIn\<close> are parameters.
\<close>

record ('k, 'r) SkipList =
  arena :: "'k Node list"
  head :: addr
  max_height :: int
  rnd :: 'r
  stores :: "atomic_store list"

record Iterator =
  node :: ptr

definition kMaxHeight :: int where
  "kMaxHeight = 12"

definition kBranching :: nat where
  "kBranching = 4"

definition GetMaxHight :: "('k, 'r) SkipList \<Rightarrow> int" where
  "GetMaxHight sl = max_height sl"

definition Equal :: "('k \<Rightarrow> 'k \<Rightarrow> int) \<Rightarrow> 'k \<Rightarrow> 'k \<Rightarrow> bool" where
  "Equal compare a b = (compare a b = 0)"

subsection \<open>Node\<close>

text \<open>\<open>Node::Next\<close> (acquire load) and \<open>Node::NoBarrier_Next\<close> (relaxed load).\<close>

definition Next :: "'k Node list \<Rightarrow> addr \<Rightarrow> int \<Rightarrow> fault + ptr" where
  "Next mem x n =
     (if n < 0 then Inl AssertionFailed
      else if x < length mem \<and> nat n < length (nexts (mem ! x))
           then Inr (nexts (mem ! x) ! nat n)
           else Inl InvalidAccess)"

definition NoBarrier_Next :: "'k Node list \<Rightarrow> addr \<Rightarrow> int \<Rightarrow> fault + ptr" where
  "NoBarrier_Next mem x n =
     (if n < 0 then Inl AssertionFailed
      else if x < length mem \<and> nat n < length (nexts (mem ! x))
           then Inr (nexts (mem ! x) ! nat n)
           else Inl InvalidAccess)"

text \<open>\<open>next_[n].store(x, order)\<close>, the body shared by the two setters.\<close>

definition store_next ::
  "memory_order \<Rightarrow> ('k, 'r) SkipList \<Rightarrow> addr \<Rightarrow> int \<Rightarrow> ptr \<Rightarrow> fault + ('k, 'r) SkipList" where
  "store_next order sl x n v =
     (if n < 0 then Inl AssertionFailed
      else if x < length (arena sl) \<and> nat n < length (nexts (arena sl ! x))
           then Inr (sl\<lparr>arena := (arena sl)[x := (arena sl ! x)
                                    \<lparr>nexts := (nexts (arena sl ! x))[nat n := v]\<rparr>],
                         stores := stores sl @ [NextStore x (nat n) v order]\<rparr>)
           else Inl InvalidAccess)"

definition SetNext :: "('k, 'r) SkipList \<Rightarrow> addr \<Rightarrow> int \<Rightarrow> ptr \<Rightarrow> fault + ('k, 'r) SkipList" where
  "SetNext sl x n v = store_next memory_order_release sl x n v"

definition NoBarrier_SetNext ::
  "('k, 'r) SkipList \<Rightarrow> addr \<Rightarrow> int \<Rightarrow> ptr \<Rightarrow> fault + ('k, 'r) SkipList" where
  "NoBarrier_SetNext sl x n v = store_next memory_order_relaxed sl x n v"

subsection \<open>Construction\<close>

text \<open>
  \<open>NewNode\<close> places a node with \<open>height\<close> forward-pointer slots in arena memory. Both call
  sites pass a height between 1 and \<open>kMaxHeight\<close>.
\<close>

definition NewNode :: "('k, 'r) SkipList \<Rightarrow> 'k \<Rightarrow> int \<Rightarrow> addr \<times> ('k, 'r) SkipList" where
  "NewNode sl k height =
     (length (arena sl),
      sl\<lparr>arena := arena sl @ [\<lparr>key = k, nexts = replicate (nat height) None\<rparr>]\<rparr>)"

function init_head :: "('k, 'r) SkipList \<Rightarrow> int \<Rightarrow> fault + ('k, 'r) SkipList" where
  "init_head sl i =
     (if i < kMaxHeight
      then (case SetNext sl (head sl) i None of
              Inl e \<Rightarrow> Inl e
            | Inr sl' \<Rightarrow> init_head sl' (i + 1))
      else Inr sl)"
  by pat_completeness auto
termination
  by (relation "measure (\<lambda>(sl, i). nat (kMaxHeight - i))") auto

declare init_head.simps [simp del]

text \<open>
  The constructor. \<open>Random\<close> is the missing class's constructor, \<open>k0\<close> the key written
  \<open>0 /* any key will do */\<close> in the source.
\<close>

definition SkipList_ctor :: "(int \<Rightarrow> 'r) \<Rightarrow> 'k \<Rightarrow> fault + ('k, 'r) SkipList" where
  "SkipList_ctor Random k0 =
     init_head
       \<lparr>arena = [\<lparr>key = k0, nexts = replicate (nat kMaxHeight) None\<rparr>],
        head = 0,
        max_height = 1,
        rnd = Random 0xdeadbeef,
        stores = []\<rparr>
       0"

subsection \<open>RandomHeight\<close>

function RandomHeight_loop :: "('r \<Rightarrow> nat \<Rightarrow> bool \<times> 'r) \<Rightarrow> int \<Rightarrow> 'r \<Rightarrow> int \<times> 'r" where
  "RandomHeight_loop OneIn height r =
     (if height < kMaxHeight
      then (let (b, r') = OneIn r kBranching
            in if b then RandomHeight_loop OneIn (height + 1) r' else (height, r'))
      else (height, r))"
  by pat_completeness auto
termination
  by (relation "measure (\<lambda>(OneIn, height, r). nat (kMaxHeight - height))") auto

declare RandomHeight_loop.simps [simp del]

definition RandomHeight :: "('r \<Rightarrow> nat \<Rightarrow> bool \<times> 'r) \<Rightarrow> 'r \<Rightarrow> fault + int \<times> 'r" where
  "RandomHeight OneIn r =
     (let (height, r') = RandomHeight_loop OneIn 1 r
      in if \<not> height > 0 then Inl AssertionFailed
         else if \<not> height \<le> kMaxHeight then Inl AssertionFailed
         else Inr (height, r'))"

subsection \<open>Search\<close>

definition KeyIsAfterNode ::
  "('k \<Rightarrow> 'k \<Rightarrow> int) \<Rightarrow> 'k Node list \<Rightarrow> 'k \<Rightarrow> ptr \<Rightarrow> fault + bool" where
  "KeyIsAfterNode compare mem k n =
     (case n of
        None \<Rightarrow> Inr False
      | Some a \<Rightarrow> if a < length mem then Inr (compare (key (mem ! a)) k < 0)
                  else Inl InvalidAccess)"

text \<open>\<open>if (prev != nullptr) prev[level] = x;\<close> on an array of \<open>length prev\<close> entries.\<close>

definition set_prev :: "ptr list option \<Rightarrow> int \<Rightarrow> addr \<Rightarrow> fault + ptr list option" where
  "set_prev prev level x =
     (case prev of
        None \<Rightarrow> Inr None
      | Some p \<Rightarrow> if 0 \<le> level \<and> nat level < length p
                  then Inr (Some (p[nat level := Some x]))
                  else Inl InvalidAccess)"

text \<open>
  The \<open>while (true)\<close> loop of \<open>FindGreaterOrEqual\<close>. The result \<open>None\<close> stands for a loop
  that never returns.
\<close>

partial_function (option) FindGreaterOrEqual_loop ::
  "('k \<Rightarrow> 'k \<Rightarrow> int) \<Rightarrow> 'k Node list \<Rightarrow> 'k \<Rightarrow> addr \<Rightarrow> int \<Rightarrow> ptr list option
     \<Rightarrow> (fault + ptr \<times> ptr list option) option" where
  "FindGreaterOrEqual_loop compare mem k x level prev =
     (case Next mem x level of
        Inl e \<Rightarrow> Some (Inl e)
      | Inr next \<Rightarrow>
          (case KeyIsAfterNode compare mem k next of
             Inl e \<Rightarrow> Some (Inl e)
           | Inr after \<Rightarrow>
               if after then FindGreaterOrEqual_loop compare mem k (the next) level prev
               else
                 (case set_prev prev level x of
                    Inl e \<Rightarrow> Some (Inl e)
                  | Inr prev' \<Rightarrow>
                      if level = 0 then Some (Inr (next, prev'))
                      else FindGreaterOrEqual_loop compare mem k x (level - 1) prev')))"

declare FindGreaterOrEqual_loop.simps [code]

definition FindGreaterOrEqual ::
  "('k \<Rightarrow> 'k \<Rightarrow> int) \<Rightarrow> ('k, 'r) SkipList \<Rightarrow> 'k \<Rightarrow> ptr list option
     \<Rightarrow> (fault + ptr \<times> ptr list option) option" where
  "FindGreaterOrEqual compare sl k prev =
     FindGreaterOrEqual_loop compare (arena sl) k (head sl) (GetMaxHight sl - 1) prev"

text \<open>
  \<open>Contains\<close>. The identifier \<open>flase\<close> that the second \<open>return\<close> names is declared nowhere
  in the sources; what it denotes is the parameter \<open>flase\<close>.
\<close>

definition Contains ::
  "bool \<Rightarrow> ('k \<Rightarrow> 'k \<Rightarrow> int) \<Rightarrow> ('k, 'r) SkipList \<Rightarrow> 'k \<Rightarrow> (fault + bool) option" where
  "Contains flase compare sl k =
     (case FindGreaterOrEqual compare sl k None of
        None \<Rightarrow> None
      | Some (Inl e) \<Rightarrow> Some (Inl e)
      | Some (Inr (x, _)) \<Rightarrow>
          (case x of
             None \<Rightarrow> Some (Inr flase)
           | Some a \<Rightarrow>
               if a < length (arena sl)
               then (if Equal compare k (key (arena sl ! a)) then Some (Inr True)
                     else Some (Inr flase))
               else Some (Inl InvalidAccess)))"

subsection \<open>Insert\<close>

text \<open>\<open>for (int i = GetMaxHight(); i < height; i++) prev[i] = head_;\<close>\<close>

function raise_prev :: "ptr list \<Rightarrow> addr \<Rightarrow> int \<Rightarrow> int \<Rightarrow> fault + ptr list" where
  "raise_prev prev h i height =
     (if i < height
      then (if 0 \<le> i \<and> nat i < length prev
            then raise_prev (prev[nat i := Some h]) h (i + 1) height
            else Inl InvalidAccess)
      else Inr prev)"
  by pat_completeness auto
termination
  by (relation "measure (\<lambda>(prev, h, i, height). nat (height - i))") auto

declare raise_prev.simps [simp del]

text \<open>Reading \<open>prev[i]\<close> in order to dereference it.\<close>

definition prev_at :: "ptr list \<Rightarrow> int \<Rightarrow> fault + addr" where
  "prev_at prev i =
     (if 0 \<le> i \<and> nat i < length prev
      then (case prev ! nat i of None \<Rightarrow> Inl InvalidAccess | Some p \<Rightarrow> Inr p)
      else Inl InvalidAccess)"

text \<open>The splicing loop \<open>for (int i = 0; i < height; i++)\<close> at the end of \<open>Insert\<close>.\<close>

function splice ::
  "('k, 'r) SkipList \<Rightarrow> ptr list \<Rightarrow> addr \<Rightarrow> int \<Rightarrow> int \<Rightarrow> fault + ('k, 'r) SkipList" where
  "splice sl prev x i height =
     (if i < height
      then (case prev_at prev i of
              Inl e \<Rightarrow> Inl e
            | Inr p \<Rightarrow>
                (case NoBarrier_Next (arena sl) p i of
                   Inl e \<Rightarrow> Inl e
                 | Inr succ \<Rightarrow>
                     (case NoBarrier_SetNext sl x i succ of
                        Inl e \<Rightarrow> Inl e
                      | Inr sl1 \<Rightarrow>
                          (case SetNext sl1 p i (Some x) of
                             Inl e \<Rightarrow> Inl e
                           | Inr sl2 \<Rightarrow> splice sl2 prev x (i + 1) height))))
      else Inr sl)"
  by pat_completeness auto
termination
  by (relation "measure (\<lambda>(sl, prev, x, i, height). nat (height - i))") auto

declare splice.simps [simp del]

text \<open>
  \<open>assert(x == nullptr || !Equal(key, x->key))\<close>: the value of the asserted condition.
\<close>

definition no_duplicate ::
  "('k \<Rightarrow> 'k \<Rightarrow> int) \<Rightarrow> 'k Node list \<Rightarrow> 'k \<Rightarrow> ptr \<Rightarrow> fault + bool" where
  "no_duplicate compare mem k x =
     (case x of
        None \<Rightarrow> Inr True
      | Some a \<Rightarrow> if a < length mem then Inr (\<not> Equal compare k (key (mem ! a)))
                  else Inl InvalidAccess)"

text \<open>
  The part of \<open>Insert\<close> after the search and the assertion: the height is drawn, the
  height hint is raised, the node is allocated and spliced in.
\<close>

definition Insert_node ::
  "('r \<Rightarrow> nat \<Rightarrow> bool \<times> 'r) \<Rightarrow> ('k, 'r) SkipList \<Rightarrow> 'k \<Rightarrow> ptr list
     \<Rightarrow> fault + ('k, 'r) SkipList" where
  "Insert_node OneIn sl k prev =
     (case RandomHeight OneIn (rnd sl) of
        Inl e \<Rightarrow> Inl e
      | Inr (height, r') \<Rightarrow>
          (let sl0 = sl\<lparr>rnd := r'\<rparr> in
           case (if height > GetMaxHight sl0
                 then (case raise_prev prev (head sl0) (GetMaxHight sl0) height of
                         Inl e \<Rightarrow> Inl e
                       | Inr prev' \<Rightarrow>
                           Inr (prev',
                                sl0\<lparr>max_height := height,
                                    stores := stores sl0
                                      @ [MaxHeightStore height memory_order_relaxed]\<rparr>))
                 else Inr (prev, sl0)) of
             Inl e \<Rightarrow> Inl e
           | Inr (prev', sl1) \<Rightarrow>
               (let (x, sl2) = NewNode sl1 k height
                in splice sl2 prev' x 0 height)))"

text \<open>
  \<open>Insert\<close>. \<open>ndebug\<close> says whether the translation unit is compiled with \<open>NDEBUG\<close>, which
  removes the assertion; \<open>prev\<close> starts as an array of \<open>kMaxHeight\<close> unwritten entries.
\<close>

definition Insert ::
  "bool \<Rightarrow> ('r \<Rightarrow> nat \<Rightarrow> bool \<times> 'r) \<Rightarrow> ('k \<Rightarrow> 'k \<Rightarrow> int) \<Rightarrow> ('k, 'r) SkipList \<Rightarrow> 'k
     \<Rightarrow> (fault + ('k, 'r) SkipList) option" where
  "Insert ndebug OneIn compare sl k =
     (case FindGreaterOrEqual compare sl k (Some (replicate (nat kMaxHeight) None)) of
        None \<Rightarrow> None
      | Some (Inl e) \<Rightarrow> Some (Inl e)
      | Some (Inr (x, prev)) \<Rightarrow>
          (case (if ndebug then Inr True else no_duplicate compare (arena sl) k x) of
             Inl e \<Rightarrow> Some (Inl e)
           | Inr ok \<Rightarrow>
               if \<not> ok then Some (Inl AssertionFailed)
               else (case prev of
                       None \<Rightarrow> Some (Inl InvalidAccess)
                     | Some p \<Rightarrow> Some (Insert_node OneIn sl k p))))"

text \<open>Successive calls of \<open>Insert\<close>, stopping at the first one that fails.\<close>

fun Insert_all ::
  "bool \<Rightarrow> ('r \<Rightarrow> nat \<Rightarrow> bool \<times> 'r) \<Rightarrow> ('k \<Rightarrow> 'k \<Rightarrow> int) \<Rightarrow> ('k, 'r) SkipList \<Rightarrow> 'k list
     \<Rightarrow> (fault + ('k, 'r) SkipList) option" where
  "Insert_all ndebug OneIn compare sl [] = Some (Inr sl)"
| "Insert_all ndebug OneIn compare sl (k # ks) =
     (case Insert ndebug OneIn compare sl k of
        None \<Rightarrow> None
      | Some (Inl e) \<Rightarrow> Some (Inl e)
      | Some (Inr sl') \<Rightarrow> Insert_all ndebug OneIn compare sl' ks)"

subsection \<open>Iterator\<close>

text \<open>
  \<open>list_\<close> points to the list the iterator was made for; the operations that read the list
  take its current state as the argument \<open>sl\<close>.
\<close>

definition Iterator_ctor :: "('k, 'r) SkipList \<Rightarrow> Iterator" where
  "Iterator_ctor list = \<lparr>node = None\<rparr>"

definition Valid :: "Iterator \<Rightarrow> bool" where
  "Valid it = (node it \<noteq> None)"

definition Iterator_key :: "('k, 'r) SkipList \<Rightarrow> Iterator \<Rightarrow> fault + 'k" where
  "Iterator_key sl it =
     (if \<not> Valid it then Inl AssertionFailed
      else (case node it of
              None \<Rightarrow> Inl InvalidAccess
            | Some a \<Rightarrow> if a < length (arena sl) then Inr (key (arena sl ! a))
                        else Inl InvalidAccess))"

text \<open>
  \<open>Iterator::Next\<close>: its body is \<open>assert(Valid()); return node_->Next(0);\<close>. The successor
  is read, and \<open>node_\<close> is not assigned.
\<close>

definition Iterator_Next :: "('k, 'r) SkipList \<Rightarrow> Iterator \<Rightarrow> fault + Iterator" where
  "Iterator_Next sl it =
     (if \<not> Valid it then Inl AssertionFailed
      else (case node it of
              None \<Rightarrow> Inl InvalidAccess
            | Some a \<Rightarrow>
                (case Next (arena sl) a 0 of
                   Inl e \<Rightarrow> Inl e
                 | Inr successor \<Rightarrow> Inr it)))"

text \<open>
  \<open>Iterator::Seek\<close>: its body is \<open>node_ = FindGreaterOrEqual(key, nullptr);\<close>. Inside
  \<open>Iterator\<close> the name \<open>key\<close> is the accessor \<open>Iterator::key\<close>, so the search is for the key
  the iterator stands on; the parameter \<open>target\<close> is not used.
\<close>

definition Seek ::
  "('k \<Rightarrow> 'k \<Rightarrow> int) \<Rightarrow> ('k, 'r) SkipList \<Rightarrow> Iterator \<Rightarrow> 'k \<Rightarrow> (fault + Iterator) option" where
  "Seek compare sl it target =
     (case Iterator_key sl it of
        Inl e \<Rightarrow> Some (Inl e)
      | Inr k \<Rightarrow>
          (case FindGreaterOrEqual compare sl k None of
             None \<Rightarrow> None
           | Some (Inl e) \<Rightarrow> Some (Inl e)
           | Some (Inr (x, _)) \<Rightarrow> Some (Inr (it\<lparr>node := x\<rparr>))))"

definition SeekToFirst :: "('k, 'r) SkipList \<Rightarrow> Iterator \<Rightarrow> fault + Iterator" where
  "SeekToFirst sl it =
     (case Next (arena sl) (head sl) 0 of
        Inl e \<Rightarrow> Inl e
      | Inr first \<Rightarrow> Inr (it\<lparr>node := first\<rparr>))"

subsection \<open>Notions used to state the properties\<close>

text \<open>
  The state of the generator after \<open>n\<close> calls of \<open>OneIn(kBranching)\<close>, and whether the
  call after those \<open>n\<close> returns true.
\<close>

fun draws :: "('r \<Rightarrow> nat \<Rightarrow> bool \<times> 'r) \<Rightarrow> 'r \<Rightarrow> nat \<Rightarrow> 'r" where
  "draws OneIn r 0 = r"
| "draws OneIn r (Suc n) = snd (OneIn (draws OneIn r n) kBranching)"

definition draw_succeeds :: "('r \<Rightarrow> nat \<Rightarrow> bool \<times> 'r) \<Rightarrow> 'r \<Rightarrow> nat \<Rightarrow> bool" where
  "draw_succeeds OneIn r n = fst (OneIn (draws OneIn r n) kBranching)"

subsection \<open>The shape of a skip list\<close>

text \<open>
  The number of forward-pointer slots of the node at \<open>a\<close>, the content of slot \<open>l\<close>, and
  whether the key of the node at \<open>a\<close> is strictly less than \<open>k\<close> under the comparator.
\<close>

definition height :: "'k Node list \<Rightarrow> addr \<Rightarrow> nat" where
  "height mem a = length (nexts (mem ! a))"

definition link :: "'k Node list \<Rightarrow> addr \<Rightarrow> nat \<Rightarrow> ptr" where
  "link mem a l = nexts (mem ! a) ! l"

definition key_less :: "('k \<Rightarrow> 'k \<Rightarrow> int) \<Rightarrow> 'k Node list \<Rightarrow> 'k \<Rightarrow> addr \<Rightarrow> bool" where
  "key_less compare mem k a = (compare (key (mem ! a)) k < 0)"

text \<open>
  The comparator orders the keys: swapping the arguments swaps the sign, and
  \<open>\<le>\<close> is transitive.
\<close>

definition comparator_ok :: "('k \<Rightarrow> 'k \<Rightarrow> int) \<Rightarrow> bool" where
  "comparator_ok compare =
     ((\<forall>a b. (compare a b < 0) = (compare b a > 0))
      \<and> (\<forall>a b c. compare a b \<le> 0 \<and> compare b c \<le> 0 \<longrightarrow> compare a c \<le> 0))"

text \<open>
  The nodes reached from the pointer \<open>p\<close> by following the level-0 links up to \<open>nullptr\<close>.
\<close>

inductive level0_chain :: "'k Node list \<Rightarrow> ptr \<Rightarrow> addr list \<Rightarrow> bool" for mem where
  level0_end: "level0_chain mem None []"
| level0_step: "Next mem x 0 = Inr n \<Longrightarrow> level0_chain mem n xs \<Longrightarrow> level0_chain mem (Some x) (x # xs)"

text \<open>
  In a list of nodes in level-0 order, every slot \<open>l\<close> of every node points to the first
  later node that has a slot \<open>l\<close>.
\<close>

fun links_ok :: "'k Node list \<Rightarrow> addr list \<Rightarrow> bool" where
  "links_ok mem [] = True"
| "links_ok mem (x # rest) =
     ((\<forall>l \<in> {..<height mem x}. link mem x l = List.find (\<lambda>a. l < height mem a) rest)
      \<and> links_ok mem rest)"

text \<open>
  The shape of the list, \<open>chain\<close> being its nodes after the head in level-0 order: the
  head and the chain are all the nodes allocated, the head has \<open>kMaxHeight\<close> slots, the
  height hint is between 1 and \<open>kMaxHeight\<close> and bounds the height of every node, and the
  links are those of \<open>links_ok\<close>.
\<close>

definition skiplist_shape :: "('k, 'r) SkipList \<Rightarrow> addr list \<Rightarrow> bool" where
  "skiplist_shape sl chain =
     (set (head sl # chain) = {..<length (arena sl)}
      \<and> distinct (head sl # chain)
      \<and> height (arena sl) (head sl) = nat kMaxHeight
      \<and> 1 \<le> max_height sl \<and> max_height sl \<le> kMaxHeight
      \<and> (\<forall>a \<in> set chain. 1 \<le> height (arena sl) a \<and> int (height (arena sl) a) \<le> max_height sl)
      \<and> links_ok (arena sl) (head sl # chain))"

text \<open>Whether the keys increase strictly along a list of nodes.\<close>

definition keys_increasing :: "('k \<Rightarrow> 'k \<Rightarrow> int) \<Rightarrow> 'k Node list \<Rightarrow> addr list \<Rightarrow> bool" where
  "keys_increasing compare mem chain =
     sorted_wrt (\<lambda>a b. compare (key (mem ! a)) (key (mem ! b)) < 0) chain"

text \<open>The invariant of the list: its shape, and keys that increase strictly along the chain.\<close>

definition skiplist_inv :: "('k \<Rightarrow> 'k \<Rightarrow> int) \<Rightarrow> ('k, 'r) SkipList \<Rightarrow> addr list \<Rightarrow> bool" where
  "skiplist_inv compare sl chain =
     (skiplist_shape sl chain \<and> keys_increasing compare (arena sl) chain)"

text \<open>
  The predecessor at level \<open>l\<close> of a search for \<open>k\<close>: the last node with a slot \<open>l\<close> among
  the head and the nodes of the chain whose key is less than \<open>k\<close>.
\<close>

definition predecessor ::
  "('k \<Rightarrow> 'k \<Rightarrow> int) \<Rightarrow> 'k Node list \<Rightarrow> 'k \<Rightarrow> addr \<Rightarrow> addr list \<Rightarrow> nat \<Rightarrow> addr" where
  "predecessor compare mem k h chain l =
     last (filter (\<lambda>a. l < height mem a) (h # takeWhile (key_less compare mem k) chain))"

text \<open>The two stores that one round of the splicing loop performs at level \<open>l\<close>.\<close>

definition splice_stores :: "'k Node list \<Rightarrow> ptr list \<Rightarrow> addr \<Rightarrow> nat \<Rightarrow> atomic_store list" where
  "splice_stores mem prev x l =
     [NextStore x l (link mem (the (prev ! l)) l) memory_order_relaxed,
      NextStore (the (prev ! l)) l (Some x) memory_order_release]"

text \<open>The nodes other than the head whose key compares equal to \<open>k\<close>.\<close>

definition nodes_with_key ::
  "('k \<Rightarrow> 'k \<Rightarrow> int) \<Rightarrow> ('k, 'r) SkipList \<Rightarrow> 'k \<Rightarrow> addr list" where
  "nodes_with_key compare sl k =
     filter (\<lambda>a. a \<noteq> head sl \<and> Equal compare k (key (arena sl ! a))) [0..<length (arena sl)]"

subsection \<open>Concrete inputs\<close>

text \<open>
  A three-way comparator on integers, and a deterministic stand-in for the generator:
  its state counts the draws, and every \<open>n\<close>-th draw succeeds.
\<close>

definition int_cmp :: "int \<Rightarrow> int \<Rightarrow> int" where
  "int_cmp a b = (if a < b then - 1 else if a = b then 0 else 1)"

definition counter_OneIn :: "nat \<Rightarrow> nat \<Rightarrow> bool \<times> nat" where
  "counter_OneIn r n = (Suc r mod n = 0, Suc r)"

text \<open>
  The list after \<open>Insert(5)\<close>, \<open>Insert(1)\<close>, \<open>Insert(9)\<close>, \<open>Insert(3)\<close> on a fresh list whose
  generator is \<open>counter_OneIn\<close> started at 2: the node of key 1 got height 2, the others
  height 1. Its nodes in level-0 order are at 2, 4, 1, 3.
\<close>

definition example_stores :: "atomic_store list" where
  "example_stores =
     map (\<lambda>i. NextStore 0 i None memory_order_release) [0..<12]
     @ [NextStore 1 0 None memory_order_relaxed, NextStore 0 0 (Some 1) memory_order_release,
        MaxHeightStore 2 memory_order_relaxed,
        NextStore 2 0 (Some 1) memory_order_relaxed, NextStore 0 0 (Some 2) memory_order_release,
        NextStore 2 1 None memory_order_relaxed, NextStore 0 1 (Some 2) memory_order_release,
        NextStore 3 0 None memory_order_relaxed, NextStore 1 0 (Some 3) memory_order_release,
        NextStore 4 0 (Some 1) memory_order_relaxed, NextStore 2 0 (Some 4) memory_order_release]"

definition example_list :: "(int, nat) SkipList" where
  "example_list =
     \<lparr>arena =
        [\<lparr>key = 0, nexts = [Some 2, Some 2] @ replicate 10 None\<rparr>,
         \<lparr>key = 5, nexts = [Some 3]\<rparr>,
         \<lparr>key = 1, nexts = [Some 4, None]\<rparr>,
         \<lparr>key = 9, nexts = [None]\<rparr>,
         \<lparr>key = 3, nexts = [Some 1]\<rparr>],
      head = 0,
      max_height = 2,
      rnd = 7,
      stores = example_stores\<rparr>"

section \<open>The arena (util/arena.h)\<close>

text \<open>
  Addresses and sizes are natural numbers. \<open>Allocate\<close> subtracts only under its guard
  \<open>bytes <= alloc_bytes_remaining_\<close> and moves the cursor inside the current block, so none
  of its arithmetic wraps around.

  \<open>blocks\<close> holds the block pointers, as the \<open>std::vector<char*>\<close> of the source does; \<open>heap\<close>
  records, for each block, its address together with the size it was requested with, which
  the arena does not store.
\<close>

record Arena =
  alloc_ptr :: nat
  alloc_bytes_remaining :: nat
  blocks :: "nat list"
  memory_usage :: nat
  heap :: "(nat \<times> nat) list"

text \<open>
  \<open>Arena::Allocate\<close>. The private member \<open>AllocateFallback\<close> is declared in the header and
  defined outside the sources; it is the parameter \<open>AllocateFallback\<close>. The assertion
  \<open>bytes >= 0\<close> on a \<open>size_t\<close> cannot fail.
\<close>

definition Allocate :: "(Arena \<Rightarrow> nat \<Rightarrow> nat \<times> Arena) \<Rightarrow> Arena \<Rightarrow> nat \<Rightarrow> nat \<times> Arena" where
  "Allocate AllocateFallback a bytes =
     (if bytes \<le> alloc_bytes_remaining a
      then (let result = alloc_ptr a
            in (result, a\<lparr>alloc_ptr := alloc_ptr a + bytes,
                           alloc_bytes_remaining := alloc_bytes_remaining a - bytes\<rparr>))
      else AllocateFallback a bytes)"

text \<open>
  Modelled from the spec: \<open>AllocateNewBlock\<close>, which is defined outside the sources. It
  obtains a block of \<open>block_bytes\<close> bytes from the system, records it and adds its size to
  the usage counter. The system allocator is the parameter \<open>new_array\<close>: given the blocks
  handed out so far and a size, it returns the address of the new block.
\<close>

definition AllocateNewBlock ::
  "((nat \<times> nat) list \<Rightarrow> nat \<Rightarrow> nat) \<Rightarrow> Arena \<Rightarrow> nat \<Rightarrow> nat \<times> Arena" where
  "AllocateNewBlock new_array a block_bytes =
     (let result = new_array (heap a) block_bytes
      in (result, a\<lparr>blocks := blocks a @ [result],
                     memory_usage := memory_usage a + block_bytes,
                     heap := heap a @ [(result, block_bytes)]\<rparr>))"

text \<open>
  Modelled from the spec: \<open>AllocateFallback\<close>, which is defined outside the sources. A
  request of more than a quarter of the standard block size gets a block of its own, and
  the cursor stays where it is; any other request gets the start of a new block of the
  standard size, and the cursor moves to the rest of that block (the rest of the old block
  is abandoned). The standard block size is the parameter \<open>block_size\<close>.
\<close>

definition AllocateFallback ::
  "((nat \<times> nat) list \<Rightarrow> nat \<Rightarrow> nat) \<Rightarrow> nat \<Rightarrow> Arena \<Rightarrow> nat \<Rightarrow> nat \<times> Arena" where
  "AllocateFallback new_array block_size a bytes =
     (if bytes > block_size div 4
      then AllocateNewBlock new_array a bytes
      else (let (result, a') = AllocateNewBlock new_array a block_size
            in (result, a'\<lparr>alloc_ptr := result + bytes,
                            alloc_bytes_remaining := block_size - bytes\<rparr>)))"

text \<open>
  Modelled from the spec: \<open>AllocateAligned\<close>, which is defined outside the sources. The
  cursor is rounded up to the next multiple of the alignment \<open>align\<close>; when the padding and
  the request fit in what remains of the block, the request is served there, and otherwise
  by the fallback path.
\<close>

definition AllocateAligned ::
  "((nat \<times> nat) list \<Rightarrow> nat \<Rightarrow> nat) \<Rightarrow> nat \<Rightarrow> nat \<Rightarrow> Arena \<Rightarrow> nat \<Rightarrow> nat \<times> Arena" where
  "AllocateAligned new_array block_size align a bytes =
     (let current_mod = alloc_ptr a mod align;
          slop = (if current_mod = 0 then 0 else align - current_mod);
          needed = bytes + slop
      in if needed \<le> alloc_bytes_remaining a
         then (alloc_ptr a + slop,
               a\<lparr>alloc_ptr := alloc_ptr a + needed,
                  alloc_bytes_remaining := alloc_bytes_remaining a - needed\<rparr>)
         else AllocateFallback new_array block_size a bytes)"

text \<open>
  A sequence of calls, each with its size, and the address ranges (address, size) they
  return, in the order of the calls.
\<close>

datatype request = Alloc nat | AllocAligned nat

fun request_size :: "request \<Rightarrow> nat" where
  "request_size (Alloc n) = n"
| "request_size (AllocAligned n) = n"

fun serve ::
  "((nat \<times> nat) list \<Rightarrow> nat \<Rightarrow> nat) \<Rightarrow> nat \<Rightarrow> nat \<Rightarrow> Arena \<Rightarrow> request \<Rightarrow> nat \<times> Arena" where
  "serve new_array block_size align a (Alloc n) =
     Allocate (AllocateFallback new_array block_size) a n"
| "serve new_array block_size align a (AllocAligned n) =
     AllocateAligned new_array block_size align a n"

fun serve_all ::
  "((nat \<times> nat) list \<Rightarrow> nat \<Rightarrow> nat) \<Rightarrow> nat \<Rightarrow> nat \<Rightarrow> Arena \<Rightarrow> request list
     \<Rightarrow> (nat \<times> nat) list \<times> Arena" where
  "serve_all new_array block_size align a [] = ([], a)"
| "serve_all new_array block_size align a (q # qs) =
     (let (p, a') = serve new_array block_size align a q;
          (rs, a'') = serve_all new_array block_size align a' qs
      in ((p, request_size q) # rs, a''))"

text \<open>The bytes of a range, the bytes of all blocks, and the bytes left at the cursor.\<close>

definition bytes_of :: "nat \<times> nat \<Rightarrow> nat set" where
  "bytes_of r = {fst r ..< fst r + snd r}"

definition block_bytes :: "Arena \<Rightarrow> nat set" where
  "block_bytes a = (\<Union>b \<in> set (heap a). bytes_of b)"

definition cursor_bytes :: "Arena \<Rightarrow> nat set" where
  "cursor_bytes a = bytes_of (alloc_ptr a, alloc_bytes_remaining a)"

text \<open>The system allocator never hands out bytes of a block it has handed out before.\<close>

definition fresh_allocator :: "((nat \<times> nat) list \<Rightarrow> nat \<Rightarrow> nat) \<Rightarrow> bool" where
  "fresh_allocator new_array =
     (\<forall>h n. \<forall>b \<in> set h. bytes_of (new_array h n, n) \<inter> bytes_of b = {})"

text \<open>
  What the arena keeps between calls, \<open>rs\<close> being the ranges returned so far: the bytes
  left at the cursor lie in the blocks, every range returned lies in the blocks and off the
  cursor, and no two ranges returned share a byte.
\<close>

definition arena_inv :: "Arena \<Rightarrow> (nat \<times> nat) list \<Rightarrow> bool" where
  "arena_inv a rs =
     (cursor_bytes a \<subseteq> block_bytes a
      \<and> (\<forall>r \<in> set rs. bytes_of r \<subseteq> block_bytes a \<and> bytes_of r \<inter> cursor_bytes a = {})
      \<and> sorted_wrt (\<lambda>r s. bytes_of r \<inter> bytes_of s = {}) rs)"

text \<open>
  An allocator for concrete runs: every block starts where the highest block so far
  ends. And an arena that owns no block yet.
\<close>

definition bump_allocator :: "(nat \<times> nat) list \<Rightarrow> nat \<Rightarrow> nat" where
  "bump_allocator h n = fold (\<lambda>b m. max m (fst b + snd b)) h 4096"

definition empty_arena :: Arena where
  "empty_arena =
     \<lparr>alloc_ptr = 0, alloc_bytes_remaining = 0, blocks = [], memory_usage = 0, heap = []\<rparr>"

section \<open>Properties\<close>

text \<open>
  C10: an iterator that has just been constructed stands on no node, so \<open>Valid()\<close> is
  false before any \<open>Seek\<close>, \<open>SeekToFirst\<close> or \<open>SeekToLast\<close>.
\<close>

theorem Iterator_ctor_not_Valid: "Valid (Iterator_ctor list) = False"
  by (simp add: Valid_def Iterator_ctor_def)

subsection \<open>RandomHeight\<close>

lemma draws_shift: "draws OneIn (snd (OneIn r kBranching)) n = draws OneIn r (Suc n)"
  by (induction n) simp_all

lemma draw_succeeds_shift:
  "draw_succeeds OneIn (snd (OneIn r kBranching)) n = draw_succeeds OneIn r (Suc n)"
  unfolding draw_succeeds_def draws_shift ..

lemma RandomHeight_loop_spec:
  "h \<le> kMaxHeight \<Longrightarrow> RandomHeight_loop OneIn h r = (h', r') \<Longrightarrow>
     h \<le> h' \<and> h' \<le> kMaxHeight
     \<and> (\<forall>i < nat (h' - h). draw_succeeds OneIn r i)
     \<and> (h' < kMaxHeight \<longrightarrow> \<not> draw_succeeds OneIn r (nat (h' - h)))
     \<and> r' = draws OneIn r (if h' < kMaxHeight then Suc (nat (h' - h)) else nat (h' - h))"
proof (induction OneIn h r arbitrary: h' r' rule: RandomHeight_loop.induct)
  case (1 OneIn height r)
  show ?case
  proof (cases "height < kMaxHeight")
    case False
    then have "RandomHeight_loop OneIn height r = (height, r)"
      by (subst RandomHeight_loop.simps) simp
    with "1.prems" False show ?thesis by simp
  next
    case lt: True
    obtain b r1 where o: "OneIn r kBranching = (b, r1)" by (cases "OneIn r kBranching")
    show ?thesis
    proof (cases b)
      case False
      with lt o have "RandomHeight_loop OneIn height r = (height, r1)"
        by (subst RandomHeight_loop.simps) simp
      with lt o False "1.prems" show ?thesis by (simp add: draw_succeeds_def)
    next
      case True
      with lt o have "RandomHeight_loop OneIn height r = RandomHeight_loop OneIn (height + 1) r1"
        by (subst RandomHeight_loop.simps) simp
      with "1.prems" have rec: "RandomHeight_loop OneIn (height + 1) r1 = (h', r')"
        by simp
      have r1: "r1 = snd (OneIn r kBranching)" using o by simp
      from lt have le: "height + 1 \<le> kMaxHeight" by simp
      note ih = "1.IH" [OF lt o [symmetric] refl True le rec]
      have a: "nat (h' - height) = Suc (nat (h' - (height + 1)))" using ih by auto
      have "\<forall>i < nat (h' - height). draw_succeeds OneIn r i"
      proof (intro allI impI)
        fix i assume i: "i < nat (h' - height)"
        show "draw_succeeds OneIn r i"
        proof (cases i)
          case 0
          then show ?thesis using o True by (simp add: draw_succeeds_def)
        next
          case (Suc j)
          with i a have "j < nat (h' - (height + 1))" by simp
          with ih have "draw_succeeds OneIn r1 j" by blast
          then show ?thesis unfolding Suc r1 draw_succeeds_shift .
        qed
      qed
      moreover have "h' < kMaxHeight \<longrightarrow> \<not> draw_succeeds OneIn r (nat (h' - height))"
        using ih unfolding a r1 draw_succeeds_shift by blast
      moreover have "r' = draws OneIn r
          (if h' < kMaxHeight then Suc (nat (h' - height)) else nat (h' - height))"
        using ih unfolding a r1 draws_shift by (simp split: if_splits)
      ultimately show ?thesis using ih by auto
    qed
  qed
qed

lemma RandomHeight_Inr:
  "\<exists>height r'. RandomHeight OneIn r = Inr (height, r') \<and> 1 \<le> height \<and> height \<le> kMaxHeight
     \<and> RandomHeight_loop OneIn 1 r = (height, r')"
proof -
  obtain h' r' where l: "RandomHeight_loop OneIn 1 r = (h', r')"
    by (cases "RandomHeight_loop OneIn 1 r")
  have "1 \<le> h' \<and> h' \<le> kMaxHeight"
    using RandomHeight_loop_spec [OF _ l] by (simp add: kMaxHeight_def)
  then show ?thesis using l by (simp add: RandomHeight_def)
qed

text \<open>
  C7: every call of \<open>RandomHeight()\<close> returns (neither assertion fails) a height between 1
  and 12. The height is 1 plus the number of draws \<open>OneIn(4)\<close> that succeeded before the
  first failing one, cut off at 12: the draws before the returned height all succeeded,
  and a height below 12 was stopped by a failing draw. The generator has advanced by
  exactly the draws made.
\<close>

theorem RandomHeight_range:
  "\<exists>height r'. RandomHeight OneIn r = Inr (height, r')
     \<and> 1 \<le> height \<and> height \<le> 12
     \<and> (\<forall>i < nat (height - 1). draw_succeeds OneIn r i)
     \<and> (height < 12 \<longrightarrow> \<not> draw_succeeds OneIn r (nat (height - 1)))
     \<and> r' = draws OneIn r (if height < 12 then nat height else 11)"
proof -
  obtain h' r' where res: "RandomHeight OneIn r = Inr (h', r')"
    and l: "RandomHeight_loop OneIn 1 r = (h', r')"
    using RandomHeight_Inr [of OneIn r] by blast
  have one: "(1::int) \<le> kMaxHeight" by (simp add: kMaxHeight_def)
  note s = RandomHeight_loop_spec [OF one l]
  have "r' = draws OneIn r (if h' < 12 then nat h' else 11)"
  proof (cases "h' < 12")
    case True
    then have "Suc (nat (h' - 1)) = nat h'" using s by auto
    with True s show ?thesis by (simp add: kMaxHeight_def)
  next
    case False
    with s have "h' = 12" by (simp add: kMaxHeight_def)
    with s show ?thesis by (simp add: kMaxHeight_def)
  qed
  with res s show ?thesis by (simp add: kMaxHeight_def)
qed

theorem RandomHeight_range_witness:
  "RandomHeight counter_OneIn 3 = Inr (2, 5)
     \<and> draw_succeeds counter_OneIn 3 0 \<and> \<not> draw_succeeds counter_OneIn 3 1"
proof -
  have "RandomHeight counter_OneIn 3 = Inr (2, 5)" by code_simp
  with RandomHeight_range [of counter_OneIn 3] show ?thesis by simp
qed

subsection \<open>FindGreaterOrEqual\<close>

lemma Next_link:
  "0 \<le> level \<Longrightarrow> x < length mem \<Longrightarrow> nat level < height mem x \<Longrightarrow>
     Next mem x level = Inr (link mem x (nat level))"
  by (simp add: Next_def height_def link_def)

lemma find_None_filter: "List.find P xs = None \<Longrightarrow> set ys \<subseteq> set xs \<Longrightarrow> filter P ys = []"
  by (auto simp: find_None_iff filter_empty_conv)

lemma find_Some_takeWhile:
  "List.find P xs = Some y \<Longrightarrow> \<not> Q y \<Longrightarrow> a \<in> set (takeWhile Q xs) \<Longrightarrow> \<not> P a"
  by (induction xs) (auto split: if_splits)

lemma find_Some_split:
  "List.find P xs = Some y \<Longrightarrow> \<exists>p1 p2. xs = p1 @ y # p2 \<and> P y \<and> (\<forall>a \<in> set p1. \<not> P a)"
proof (induction xs)
  case Nil
  then show ?case by simp
next
  case (Cons x xs)
  show ?case
  proof (cases "P x")
    case True
    with Cons.prems have "x = y" by simp
    with True show ?thesis by (intro exI [of _ "[]"] exI [of _ xs]) auto
  next
    case False
    with Cons.prems have "List.find P xs = Some y" by simp
    from Cons.IH [OF this] obtain p1 p2 where "xs = p1 @ y # p2" "P y" "\<forall>a \<in> set p1. \<not> P a"
      by blast
    with False show ?thesis by (intro exI [of _ "x # p1"] exI [of _ p2]) auto
  qed
qed

lemma comparator_less_trans:
  "comparator_ok compare \<Longrightarrow> compare a b < 0 \<Longrightarrow> compare b c < 0 \<Longrightarrow> compare a c < 0"
proof -
  assume ok: "comparator_ok compare" and ab: "compare a b < 0" and bc: "compare b c < 0"
  from ok have flip: "\<And>a b. (compare a b < 0) = (compare b a > 0)"
    and tr: "\<And>a b c. compare a b \<le> 0 \<Longrightarrow> compare b c \<le> 0 \<Longrightarrow> compare a c \<le> 0"
    unfolding comparator_ok_def by blast+
  from ab bc have ac: "compare a c \<le> 0" using tr [of a b c] by simp
  show ?thesis
  proof (rule ccontr)
    assume "\<not> compare a c < 0"
    with ac have "compare a c = 0" by simp
    then have "compare c a \<le> 0" using flip [of c a] flip [of a c] by simp
    with ab have "compare c b \<le> 0" using tr [of c a b] by simp
    with bc show False using flip [of b c] by simp
  qed
qed

lemma links_ok_hd:
  "links_ok mem (x # post) \<Longrightarrow> l < height mem x \<Longrightarrow>
     link mem x l = List.find (\<lambda>a. l < height mem a) post"
  by simp

lemma links_ok_suffix: "links_ok mem (xs @ ys) \<Longrightarrow> links_ok mem ys"
  by (induction xs) simp_all

lemma sorted_wrt_key_less:
  assumes ok: "comparator_ok compare"
    and srt: "sorted_wrt (\<lambda>a b. compare (key (mem ! a)) (key (mem ! b)) < 0) (p1 @ y # p2)"
    and y: "key_less compare mem k y"
  shows "\<forall>a \<in> set p1. key_less compare mem k a"
proof
  fix a assume "a \<in> set p1"
  with srt have "compare (key (mem ! a)) (key (mem ! y)) < 0"
    by (auto simp: sorted_wrt_append)
  with y show "key_less compare mem k a"
    unfolding key_less_def using comparator_less_trans [OF ok] by blast
qed

lemma FindGreaterOrEqual_loop_correct:
  assumes ok: "comparator_ok compare"
  shows "links_ok mem (x # post) \<Longrightarrow> x < length mem \<Longrightarrow>
     \<forall>a \<in> set post. a < length mem \<and> 1 \<le> height mem a \<Longrightarrow>
     sorted_wrt (\<lambda>a b. compare (key (mem ! a)) (key (mem ! b)) < 0) post \<Longrightarrow>
     0 \<le> level \<Longrightarrow> nat level < height mem x \<Longrightarrow>
     (\<forall>p. prev = Some p \<longrightarrow> nat level < length p) \<Longrightarrow>
     \<exists>prev'. FindGreaterOrEqual_loop compare mem k x level prev
         = Some (Inr (List.find (\<lambda>a. \<not> key_less compare mem k a) post, prev'))
       \<and> (prev = None \<longrightarrow> prev' = None)
       \<and> (\<forall>p. prev = Some p \<longrightarrow> (\<exists>p'. prev' = Some p' \<and> length p' = length p
             \<and> (\<forall>l < length p. p' ! l =
                   (if l \<le> nat level
                    then Some (predecessor compare mem k x post l)
                    else p ! l))))"
proof (induction "length post + nat level" arbitrary: x post level prev rule: less_induct)
  case less
  let ?P = "\<lambda>a. nat level < height mem a"
  have nx: "Next mem x level = Inr (List.find ?P post)"
    using Next_link [OF less.prems(5) less.prems(2) less.prems(6)]
      links_ok_hd [OF less.prems(1) less.prems(6)] by simp
  show ?case
  proof (cases "\<exists>y. List.find ?P post = Some y \<and> key_less compare mem k y")
    case True
    then obtain y where fy: "List.find ?P post = Some y" and ky: "key_less compare mem k y"
      by blast
    from find_Some_split [OF fy] obtain p1 p2 where
      post: "post = p1 @ y # p2" and hy: "?P y" and p1: "\<forall>a \<in> set p1. \<not> ?P a" by blast
    have ymem: "y < length mem" using less.prems(3) post by simp
    have kian: "KeyIsAfterNode compare mem k (Some y) = Inr True"
      using ky ymem by (simp add: KeyIsAfterNode_def key_less_def)
    have step: "FindGreaterOrEqual_loop compare mem k x level prev
        = FindGreaterOrEqual_loop compare mem k y level prev"
      by (subst FindGreaterOrEqual_loop.simps) (simp add: nx fy kian)
    have "links_ok mem post" using less.prems(1) by simp
    then have lo: "links_ok mem (y # p2)" unfolding post by (rule links_ok_suffix)
    have srt: "sorted_wrt (\<lambda>a b. compare (key (mem ! a)) (key (mem ! b)) < 0) p2"
      using less.prems(4) unfolding post by (simp add: sorted_wrt_append)
    have p1k: "\<forall>a \<in> set p1. key_less compare mem k a"
      using sorted_wrt_key_less [OF ok less.prems(4) [unfolded post] ky] .
    have "length p2 + nat level < length post + nat level" unfolding post by simp
    from less.hyps [OF this lo ymem _ srt less.prems(5) hy less.prems(7)] less.prems(3)
    obtain prev' where
      r: "FindGreaterOrEqual_loop compare mem k y level prev
            = Some (Inr (List.find (\<lambda>a. \<not> key_less compare mem k a) p2, prev'))"
      and n: "prev = None \<longrightarrow> prev' = None"
      and s: "\<forall>p. prev = Some p \<longrightarrow> (\<exists>p'. prev' = Some p' \<and> length p' = length p
             \<and> (\<forall>l < length p. p' ! l =
                   (if l \<le> nat level
                    then Some (predecessor compare mem k y p2 l)
                    else p ! l)))"
      unfolding post by auto
    have f: "List.find (\<lambda>a. \<not> key_less compare mem k a) post
        = List.find (\<lambda>a. \<not> key_less compare mem k a) p2"
      unfolding post using p1k ky by (induction p1) simp_all
    have tw: "takeWhile (key_less compare mem k) post
        = p1 @ y # takeWhile (key_less compare mem k) p2"
      unfolding post using p1k ky by (simp add: takeWhile_append2)
    have pr: "predecessor compare mem k x post l = predecessor compare mem k y p2 l"
      if "l \<le> nat level" for l
    proof -
      have "l < height mem y" using that hy by simp
      then have ne: "filter (\<lambda>a. l < height mem a) (y # takeWhile (key_less compare mem k) p2) \<noteq> []"
        by simp
      have "x # takeWhile (key_less compare mem k) post
          = (x # p1) @ (y # takeWhile (key_less compare mem k) p2)"
        unfolding tw by simp
      then show ?thesis unfolding predecessor_def using ne
        by (simp only: filter_append last_append if_False)
    qed
    show ?thesis
      unfolding step r f using n s pr by auto
  next
    case False
    have kian: "KeyIsAfterNode compare mem k (List.find ?P post) = Inr False"
    proof (cases "List.find ?P post")
      case None
      then show ?thesis by (simp add: KeyIsAfterNode_def)
    next
      case (Some y)
      then have "y \<in> set post" by (auto simp: find_Some_iff)
      with less.prems(3) have "y < length mem" by blast
      moreover have "\<not> key_less compare mem k y" using False Some by blast
      ultimately show ?thesis using Some by (simp add: KeyIsAfterNode_def key_less_def)
    qed
    have low: "\<not> ?P a" if "a \<in> set (takeWhile (key_less compare mem k) post)" for a
    proof (cases "List.find ?P post")
      case None
      moreover have "a \<in> set post" using that by (rule set_takeWhileD [THEN conjunct1])
      ultimately show ?thesis by (auto simp: find_None_iff)
    next
      case (Some y)
      with False have "\<not> key_less compare mem k y" by blast
      from find_Some_takeWhile [OF Some this that] show ?thesis .
    qed
    then have "filter ?P (takeWhile (key_less compare mem k) post) = []"
      by (simp add: filter_empty_conv)
    then have px: "predecessor compare mem k x post (nat level) = x"
      using less.prems(6) by (simp add: predecessor_def)
    define prev2 where "prev2 = map_option (\<lambda>p. p[nat level := Some x]) prev"
    have sp: "set_prev prev level x = Inr prev2"
      using less.prems(5) less.prems(7) by (cases prev) (simp_all add: set_prev_def prev2_def)
    show ?thesis
    proof (cases "level = 0")
      case True
      have res: "FindGreaterOrEqual_loop compare mem k x level prev
          = Some (Inr (List.find ?P post, prev2))"
        by (subst FindGreaterOrEqual_loop.simps) (simp add: nx kian sp, simp add: True)
      have f: "List.find ?P post = List.find (\<lambda>a. \<not> key_less compare mem k a) post"
      proof (cases post)
        case Nil
        then show ?thesis by simp
      next
        case (Cons a rest)
        with less.prems(3) True have fa: "List.find ?P post = Some a" by simp
        with False have "\<not> key_less compare mem k a" by blast
        with fa Cons show ?thesis by simp
      qed
      show ?thesis
        unfolding res f using px True by (cases prev) (auto simp: prev2_def nth_list_update)
    next
      case pos: False
      have step: "FindGreaterOrEqual_loop compare mem k x level prev
          = FindGreaterOrEqual_loop compare mem k x (level - 1) prev2"
        by (subst FindGreaterOrEqual_loop.simps) (simp add: nx kian sp pos)
      have m: "length post + nat (level - 1) < length post + nat level"
        using pos less.prems(5) by simp
      have l0: "0 \<le> level - 1" using pos less.prems(5) by simp
      have l1: "nat (level - 1) < height mem x" using less.prems(6) by simp
      have l2: "\<forall>p. prev2 = Some p \<longrightarrow> nat (level - 1) < length p"
        using less.prems(7) by (cases prev) (auto simp: prev2_def)
      from less.hyps [OF m less.prems(1) less.prems(2) less.prems(3) less.prems(4) l0 l1 l2]
      obtain prev' where
        ih: "FindGreaterOrEqual_loop compare mem k x (level - 1) prev2
              = Some (Inr (List.find (\<lambda>a. \<not> key_less compare mem k a) post, prev'))
          \<and> (prev2 = None \<longrightarrow> prev' = None)
          \<and> (\<forall>p. prev2 = Some p \<longrightarrow> (\<exists>p'. prev' = Some p' \<and> length p' = length p
             \<and> (\<forall>l < length p. p' ! l =
                   (if l \<le> nat (level - 1)
                    then Some (predecessor compare mem k x post l)
                    else p ! l))))" ..
      note r = ih [THEN conjunct1]
        and n = ih [THEN conjunct2, THEN conjunct1]
        and s = ih [THEN conjunct2, THEN conjunct2]
      have le: "l \<le> nat level \<longleftrightarrow> l \<le> nat (level - 1) \<or> l = nat level" for l
        using pos less.prems(5) by auto
      show ?thesis
      proof (cases prev)
        case None
        with n r step show ?thesis by (simp add: prev2_def)
      next
        case (Some p)
        then have p2: "prev2 = Some (p[nat level := Some x])" by (simp add: prev2_def)
        from s [rule_format, OF p2] have "\<exists>p'. prev' = Some p' \<and> length p' = length (p[nat level := Some x])
             \<and> (\<forall>l < length (p[nat level := Some x]). p' ! l =
                   (if l \<le> nat (level - 1)
                    then Some (predecessor compare mem k x post l)
                    else p[nat level := Some x] ! l))" .
        then obtain p' where p': "prev' = Some p'" "length p' = length p"
          and el: "\<forall>l < length p. p' ! l =
                   (if l \<le> nat (level - 1)
                    then Some (predecessor compare mem k x post l)
                    else p[nat level := Some x] ! l)"
          by auto
        have "\<forall>l < length p. p' ! l =
                   (if l \<le> nat level
                    then Some (predecessor compare mem k x post l)
                    else p ! l)"
        proof (intro allI impI)
          fix l assume l: "l < length p"
          show "p' ! l = (if l \<le> nat level then Some (predecessor compare mem k x post l) else p ! l)"
          proof (cases "l = nat level")
            case True
            then have "\<not> l \<le> nat (level - 1)" using pos less.prems(5) by simp
            with el l True px show ?thesis by simp
          next
            case False
            with el l le [of l] show ?thesis by auto
          qed
        qed
        with p' Some r step show ?thesis by simp
      qed
    qed
  qed
qed

lemma example_list_built:
  "(case SkipList_ctor (\<lambda>seed::int. 2::nat) (0::int) of
      Inr sl \<Rightarrow> Insert_all False counter_OneIn int_cmp sl [5, 1, 9, 3])
   = Some (Inr example_list)"
  by code_simp

lemma comparator_ok_int_cmp: "comparator_ok int_cmp"
  by (auto simp: comparator_ok_def int_cmp_def split: if_splits)

lemma example_list_inv: "skiplist_inv int_cmp example_list [2, 4, 1, 3]"
  by code_simp

lemma links_ok_level0_chain:
  "links_ok mem (x # rest) \<Longrightarrow> \<forall>a \<in> set (x # rest). a < length mem \<and> 1 \<le> height mem a \<Longrightarrow>
     level0_chain mem (Some x) (x # rest)"
proof (induction rest arbitrary: x)
  case Nil
  then have "Next mem x 0 = Inr None"
    using Next_link [of 0 x mem] by simp
  then show ?case by (rule level0_step) (rule level0_end)
next
  case (Cons y rest)
  then have "Next mem x 0 = Inr (Some y)"
    using Next_link [of 0 x mem] by simp
  moreover have "level0_chain mem (Some y) (y # rest)"
    using Cons by simp
  ultimately show ?case by (rule level0_step)
qed

lemma skiplist_shape_level0_chain:
  assumes "skiplist_shape sl chain"
  shows "level0_chain (arena sl) (Some (head sl)) (head sl # chain)"
proof (rule links_ok_level0_chain)
  show "links_ok (arena sl) (head sl # chain)" using assms by (simp add: skiplist_shape_def)
  have "set (head sl # chain) = {..<length (arena sl)}"
    using assms by (simp add: skiplist_shape_def)
  then have "\<forall>a \<in> set (head sl # chain). a < length (arena sl)" by blast
  moreover have "1 \<le> height (arena sl) (head sl)"
    using assms by (simp add: skiplist_shape_def kMaxHeight_def)
  moreover have "\<forall>a \<in> set chain. 1 \<le> height (arena sl) a"
    using assms by (simp add: skiplist_shape_def)
  ultimately show "\<forall>a \<in> set (head sl # chain). a < length (arena sl) \<and> 1 \<le> height (arena sl) a"
    by simp
qed

lemma skiplist_inv_level0_chain:
  assumes "skiplist_inv compare sl chain"
  shows "level0_chain (arena sl) (Some (head sl)) (head sl # chain)"
  using assms by (simp add: skiplist_inv_def skiplist_shape_level0_chain)

lemma FindGreaterOrEqual_spec:
  assumes ok: "comparator_ok compare"
    and inv: "skiplist_inv compare sl chain"
    and len: "\<forall>p. prev = Some p \<longrightarrow> max_height sl \<le> int (length p)"
  shows "\<exists>prev'. FindGreaterOrEqual compare sl k prev
         = Some (Inr (List.find (\<lambda>a. compare (key (arena sl ! a)) k \<ge> 0) chain, prev'))
       \<and> (prev = None \<longrightarrow> prev' = None)
       \<and> (\<forall>p. prev = Some p \<longrightarrow> (\<exists>p'. prev' = Some p' \<and> length p' = length p
             \<and> (\<forall>l < length p. p' ! l =
                   (if int l < max_height sl
                    then Some (predecessor compare (arena sl) k (head sl) chain l)
                    else p ! l))))
       \<and> level0_chain (arena sl) (Some (head sl)) (head sl # chain)"
proof -
  let ?mem = "arena sl"
  have s: "set (head sl # chain) = {..<length ?mem}" using inv by (simp add: skiplist_inv_def skiplist_shape_def keys_increasing_def)
  have 1: "links_ok ?mem (head sl # chain)" using inv by (simp add: skiplist_inv_def skiplist_shape_def keys_increasing_def)
  have 2: "head sl < length ?mem" using s by auto
  have 3: "\<forall>a \<in> set chain. a < length ?mem \<and> 1 \<le> height ?mem a"
    using s inv by (auto simp: skiplist_inv_def skiplist_shape_def keys_increasing_def)
  have 4: "sorted_wrt (\<lambda>a b. compare (key (?mem ! a)) (key (?mem ! b)) < 0) chain"
    using inv by (simp add: skiplist_inv_def skiplist_shape_def keys_increasing_def)
  have mh: "1 \<le> max_height sl" "max_height sl \<le> kMaxHeight"
    and hh: "height ?mem (head sl) = nat kMaxHeight"
    using inv by (simp_all add: skiplist_inv_def skiplist_shape_def keys_increasing_def)
  have 5: "0 \<le> GetMaxHight sl - 1" using mh by (simp add: GetMaxHight_def)
  have 6: "nat (GetMaxHight sl - 1) < height ?mem (head sl)"
    using mh hh by (simp add: GetMaxHight_def kMaxHeight_def)
  have 7: "\<forall>p. prev = Some p \<longrightarrow> nat (GetMaxHight sl - 1) < length p"
    using len mh by (auto simp: GetMaxHight_def)
  have e: "(\<lambda>a. \<not> key_less compare ?mem k a) = (\<lambda>a. compare (key (?mem ! a)) k \<ge> 0)"
    by (auto simp: key_less_def)
  have i: "l \<le> nat (GetMaxHight sl - 1) \<longleftrightarrow> int l < max_height sl" for l
    using mh by (auto simp: GetMaxHight_def)
  from FindGreaterOrEqual_loop_correct [OF ok 1 2 3 4 5 6 7, of k]
  show ?thesis
    unfolding FindGreaterOrEqual_def e i using skiplist_inv_level0_chain [OF inv] by simp
qed

text \<open>
  C2: on a list that satisfies the invariant, with \<open>chain\<close> its level-0 chain after the
  head, \<open>FindGreaterOrEqual(key, prev)\<close> returns, and what it returns is the first node of
  the chain whose key is greater than or equal to the search key, or \<open>nullptr\<close> when there
  is none. When a \<open>prev\<close> array is supplied, its entry at every level below the height hint
  is the node at which the search descended: the last node with a link at that level among
  the head and the nodes whose key is strictly less than the search key; the other entries
  are left as they were.
\<close>

theorem FindGreaterOrEqual_correct:
  assumes ok: "comparator_ok compare"
    and inv: "skiplist_inv compare sl chain"
    and len: "\<forall>p. prev = Some p \<longrightarrow> max_height sl \<le> int (length p)"
  shows "\<exists>prev'. FindGreaterOrEqual compare sl k prev
         = Some (Inr (List.find (\<lambda>a. compare (key (arena sl ! a)) k \<ge> 0) chain, prev'))
       \<and> (prev = None \<longrightarrow> prev' = None)
       \<and> (\<forall>p. prev = Some p \<longrightarrow> (\<exists>p'. prev' = Some p' \<and> length p' = length p
             \<and> (\<forall>l < length p. p' ! l =
                   (if int l < max_height sl
                    then Some (predecessor compare (arena sl) k (head sl) chain l)
                    else p ! l))))
       \<and> level0_chain (arena sl) (Some (head sl)) (head sl # chain)"
  using ok inv len by (rule FindGreaterOrEqual_spec)

theorem FindGreaterOrEqual_correct_witness:
  "FindGreaterOrEqual int_cmp example_list 4 (Some (replicate 12 None))
     = Some (Inr (Some 1, Some ([Some 4, Some 2] @ replicate 10 None)))
   \<and> List.find (\<lambda>a. int_cmp (key (arena example_list ! a)) 4 \<ge> 0) [2, 4, 1, 3] = Some 1
   \<and> predecessor int_cmp (arena example_list) 4 (head example_list) [2, 4, 1, 3] 0 = 4
   \<and> predecessor int_cmp (arena example_list) 4 (head example_list) [2, 4, 1, 3] 1 = 2"
proof -
  have len: "\<forall>p. Some (replicate 12 None) = Some p
      \<longrightarrow> max_height example_list \<le> int (length (p :: ptr list))"
    by (simp add: example_list_def)
  have v: "FindGreaterOrEqual int_cmp example_list 4 (Some (replicate 12 None))
     = Some (Inr (Some 1, Some ([Some 4, Some 2] @ replicate 10 None)))"
    by code_simp
  have f: "List.find (\<lambda>a. int_cmp (key (arena example_list ! a)) 4 \<ge> 0) [2, 4, 1, 3] = Some 1"
    by code_simp
  from FindGreaterOrEqual_correct [OF comparator_ok_int_cmp example_list_inv len, of 4]
  obtain p' where "FindGreaterOrEqual int_cmp example_list 4 (Some (replicate 12 None))
         = Some (Inr (List.find (\<lambda>a. int_cmp (key (arena example_list ! a)) 4 \<ge> 0) [2, 4, 1, 3],
              Some p'))"
    and "\<forall>l < 12. p' ! l =
                   (if int l < max_height example_list
                    then Some (predecessor int_cmp (arena example_list) 4 (head example_list)
                      [2, 4, 1, 3] l)
                    else replicate 12 None ! l)"
    by auto
  with v have "\<forall>l < 12. ([Some 4, Some 2] @ replicate 10 None) ! l =
                   (if int l < max_height example_list
                    then Some (predecessor int_cmp (arena example_list) 4 (head example_list)
                      [2, 4, 1, 3] l)
                    else replicate 12 None ! l)"
    by simp
  from this [rule_format, of 0] this [rule_format, of 1] v f show ?thesis
    by (simp add: example_list_def)
qed

subsection \<open>Contains\<close>

lemma example_search_4:
  "FindGreaterOrEqual int_cmp example_list 4 None = Some (Inr (Some 1, None))"
  by code_simp

text \<open>
  C1: \<open>Contains(key)\<close> is to return true exactly when the search finds a node with an equal
  key, and false otherwise. The source returns \<open>true\<close> on the first path and the undeclared
  identifier \<open>flase\<close> on the second. On the example list, which holds the keys 1, 3, 5 and
  9, the search for 4 finds the node of key 5, and \<open>Contains(4)\<close> returns whatever
  \<open>flase\<close> denotes.
\<close>

theorem Contains_absent_key_returns_flase:
  "Contains flase int_cmp example_list 4 = Some (Inr flase)"
  by (simp add: Contains_def example_search_4) (simp add: example_list_def Equal_def int_cmp_def)

subsection \<open>Iterator\<close>

text \<open>
  C5: \<open>Seek(target)\<close> is to position the iterator on the first node whose key is greater
  than or equal to \<open>target\<close>. The source searches for \<open>key\<close>, not for \<open>target\<close>. On the
  example list, an iterator standing on the node of key 1 (at 2) stays there after
  \<open>Seek(4)\<close>, although the search for 4 finds the node of key 5 (at 1); on an iterator that
  stands on no node the assertion of \<open>key()\<close> fails.
\<close>

theorem Seek_ignores_target:
  "Seek int_cmp example_list \<lparr>node = Some 2\<rparr> 4 = Some (Inr \<lparr>node = Some 2\<rparr>)
   \<and> FindGreaterOrEqual int_cmp example_list 4 None = Some (Inr (Some 1, None))
   \<and> Seek int_cmp example_list (Iterator_ctor example_list) 4 = Some (Inl AssertionFailed)"
  by code_simp

lemma Iterator_Next_unchanged: "Iterator_Next sl it = Inr it' \<Longrightarrow> it' = it"
  by (auto simp: Iterator_Next_def split: if_splits option.splits sum.splits)

text \<open>
  C6: \<open>Next()\<close> is to move the iterator to the level-0 successor of its node. The source
  reads the successor and returns it from a \<open>void\<close> function; \<open>node_\<close> keeps its value. On
  the example list, \<open>SeekToFirst()\<close> stands on the node of key 1 (at 2), whose successor
  is the node of key 3 (at 4), and \<open>Next()\<close> leaves the iterator on the node of key 1.
\<close>

theorem Iterator_Next_stays:
  "SeekToFirst example_list (Iterator_ctor example_list) = Inr \<lparr>node = Some 2\<rparr>
   \<and> Next (arena example_list) 2 0 = Inr (Some 4)
   \<and> Iterator_Next example_list \<lparr>node = Some 2\<rparr> = Inr \<lparr>node = Some 2\<rparr>"
  by code_simp

subsection \<open>Insert\<close>

lemma store_next_effect:
  assumes "0 \<le> i" "x < length (arena sl)" "nat i < height (arena sl) x"
  shows "\<exists>sl'. store_next order sl x i v = Inr sl'
     \<and> length (arena sl') = length (arena sl)
     \<and> (\<forall>a. key (arena sl' ! a) = key (arena sl ! a))
     \<and> (\<forall>a. height (arena sl') a = height (arena sl) a)
     \<and> (\<forall>a l. a < length (arena sl) \<longrightarrow>
            link (arena sl') a l = (if a = x \<and> l = nat i then v else link (arena sl) a l))
     \<and> head sl' = head sl \<and> max_height sl' = max_height sl \<and> rnd sl' = rnd sl
     \<and> stores sl' = stores sl @ [NextStore x (nat i) v order]"
  using assms
  by (auto simp: store_next_def height_def link_def nth_list_update)

lemma NoBarrier_Next_link:
  "0 \<le> level \<Longrightarrow> x < length mem \<Longrightarrow> nat level < height mem x \<Longrightarrow>
     NoBarrier_Next mem x level = Inr (link mem x (nat level))"
  by (simp add: NoBarrier_Next_def height_def link_def)

lemma splice_effect:
  "0 \<le> i \<Longrightarrow> n < length (arena sl) \<Longrightarrow> nat h \<le> height (arena sl) n \<Longrightarrow>
   nat h \<le> length prev \<Longrightarrow>
   (\<forall>l. nat i \<le> l \<and> l < nat h \<longrightarrow>
        (\<exists>p. prev ! l = Some p \<and> p < length (arena sl) \<and> p \<noteq> n \<and> l < height (arena sl) p)) \<Longrightarrow>
   \<exists>sl'. splice sl prev n i h = Inr sl'
     \<and> length (arena sl') = length (arena sl)
     \<and> (\<forall>a. key (arena sl' ! a) = key (arena sl ! a))
     \<and> (\<forall>a. height (arena sl') a = height (arena sl) a)
     \<and> (\<forall>a l. a < length (arena sl) \<longrightarrow>
            link (arena sl') a l =
              (if nat i \<le> l \<and> l < nat h \<and> a = n then link (arena sl) (the (prev ! l)) l
               else if nat i \<le> l \<and> l < nat h \<and> prev ! l = Some a then Some n
               else link (arena sl) a l))
     \<and> head sl' = head sl \<and> max_height sl' = max_height sl \<and> rnd sl' = rnd sl
     \<and> stores sl' = stores sl @ concat (map (splice_stores (arena sl) prev n) [nat i..<nat h])"
proof (induction sl prev n i h rule: splice.induct)
  case (1 sl prev x i h)
  show ?case
  proof (cases "i < h")
    case False
    then have e: "nat i \<le> l \<Longrightarrow> \<not> l < nat h" for l by auto
    have u: "[nat i..<nat h] = []" using False by simp
    show ?thesis using False by (subst splice.simps) (simp add: e u cong: conj_cong)
  next
    case True
    then have il: "nat i \<le> nat i \<and> nat i < nat h" using "1.prems"(1) by simp
    with "1.prems"(5) obtain p where p: "prev ! nat i = Some p" "p < length (arena sl)" "p \<noteq> x"
      "nat i < height (arena sl) p" by blast
    have "nat i < length prev" using il "1.prems"(4) by linarith
    then have pa: "prev_at prev i = Inr p"
      using p "1.prems"(1) by (simp add: prev_at_def)
    have nb: "NoBarrier_Next (arena sl) p i = Inr (link (arena sl) p (nat i))"
      using NoBarrier_Next_link [OF "1.prems"(1) p(2) p(4)] .
    have hx: "nat i < height (arena sl) x" using il "1.prems"(3) by linarith
    from store_next_effect [OF "1.prems"(1) "1.prems"(2) hx, of memory_order_relaxed
        "link (arena sl) p (nat i)"]
    obtain sl1 where s1: "NoBarrier_SetNext sl x i (link (arena sl) p (nat i)) = Inr sl1"
      and l1: "length (arena sl1) = length (arena sl)"
      and k1: "\<forall>a. key (arena sl1 ! a) = key (arena sl ! a)"
      and h1: "\<forall>a. height (arena sl1) a = height (arena sl) a"
      and n1: "\<forall>a l. a < length (arena sl) \<longrightarrow> link (arena sl1) a l =
          (if a = x \<and> l = nat i then link (arena sl) p (nat i) else link (arena sl) a l)"
      and o1: "head sl1 = head sl" "max_height sl1 = max_height sl" "rnd sl1 = rnd sl"
      and t1: "stores sl1 = stores sl @ [NextStore x (nat i) (link (arena sl) p (nat i))
          memory_order_relaxed]"
      unfolding NoBarrier_SetNext_def by blast
    have p1: "p < length (arena sl1)" "nat i < height (arena sl1) p"
      using p l1 h1 by simp_all
    from store_next_effect [OF "1.prems"(1) p1, of memory_order_release "Some x"]
    obtain sl2 where s2: "SetNext sl1 p i (Some x) = Inr sl2"
      and l2: "length (arena sl2) = length (arena sl1)"
      and k2: "\<forall>a. key (arena sl2 ! a) = key (arena sl1 ! a)"
      and h2: "\<forall>a. height (arena sl2) a = height (arena sl1) a"
      and n2: "\<forall>a l. a < length (arena sl1) \<longrightarrow> link (arena sl2) a l =
          (if a = p \<and> l = nat i then Some x else link (arena sl1) a l)"
      and o2: "head sl2 = head sl1" "max_height sl2 = max_height sl1" "rnd sl2 = rnd sl1"
      and t2: "stores sl2 = stores sl1 @ [NextStore p (nat i) (Some x) memory_order_release]"
      unfolding SetNext_def by blast
    have step: "splice sl prev x i h = splice sl2 prev x (i + 1) h"
      by (subst splice.simps) (simp add: True pa nb s1 s2)
    have q1: "0 \<le> i + 1" using "1.prems"(1) by simp
    have q2: "x < length (arena sl2)" using "1.prems"(2) l1 l2 by simp
    have q3: "nat h \<le> height (arena sl2) x" using "1.prems"(3) h1 h2 by simp
    have q5: "\<forall>l. nat (i + 1) \<le> l \<and> l < nat h \<longrightarrow>
        (\<exists>p. prev ! l = Some p \<and> p < length (arena sl2) \<and> p \<noteq> x
           \<and> l < height (arena sl2) p)"
      using "1.prems"(5) "1.prems"(1) l1 l2 h1 h2 by auto
    from "1.IH" [OF True pa nb s1 s2 q1 q2 q3 "1.prems"(4) q5]
    obtain sl' where r: "splice sl2 prev x (i + 1) h = Inr sl'"
      and l': "length (arena sl') = length (arena sl2)"
      and k': "\<forall>a. key (arena sl' ! a) = key (arena sl2 ! a)"
      and h': "\<forall>a. height (arena sl') a = height (arena sl2) a"
      and n': "\<forall>a l. a < length (arena sl2) \<longrightarrow>
            link (arena sl') a l =
              (if nat (i + 1) \<le> l \<and> l < nat h \<and> a = x
               then link (arena sl2) (the (prev ! l)) l
               else if nat (i + 1) \<le> l \<and> l < nat h \<and> prev ! l = Some a then Some x
               else link (arena sl2) a l)"
      and o': "head sl' = head sl2" "max_height sl' = max_height sl2" "rnd sl' = rnd sl2"
      and t': "stores sl' = stores sl2
          @ concat (map (splice_stores (arena sl2) prev x) [nat (i + 1)..<nat h])"
      by blast
    have A: "link (arena sl2) a l =
        (if l = nat i
         then (if a = p then Some x else if a = x then link (arena sl) p (nat i)
               else link (arena sl) a l)
         else link (arena sl) a l)" if "a < length (arena sl)" for a l
      using that n1 n2 l1 by simp
    have B: "nat (i + 1) \<le> l \<longleftrightarrow> nat i \<le> l \<and> l \<noteq> nat i" for l
      using "1.prems"(1) by auto
    have links: "link (arena sl') a l =
              (if nat i \<le> l \<and> l < nat h \<and> a = x then link (arena sl) (the (prev ! l)) l
               else if nat i \<le> l \<and> l < nat h \<and> prev ! l = Some a then Some x
               else link (arena sl) a l)" if a: "a < length (arena sl)" for a l
    proof (cases "l = nat i")
      case True
      have "link (arena sl') a l = link (arena sl2) a l"
        using n' [rule_format, of a l] a l1 l2 True B [of l] by simp
      also have "\<dots> = (if a = p then Some x else if a = x then link (arena sl) p (nat i)
               else link (arena sl) a l)"
        using A [OF a, of l] True by simp
      finally show ?thesis using True il p by auto
    next
      case False
      show ?thesis
      proof (cases "nat i \<le> l \<and> l < nat h")
        case in_range: True
        with "1.prems"(5) obtain q where q: "prev ! l = Some q" "q < length (arena sl)" "q \<noteq> x"
          by blast
        have "link (arena sl2) q l = link (arena sl) q l" using A [OF q(2), of l] False by simp
        moreover have "link (arena sl2) a l = link (arena sl) a l" using A [OF a, of l] False by simp
        ultimately show ?thesis
          using n' [rule_format, of a l] a l1 l2 in_range False B [of l] q by simp
      next
        case out: False
        then have "\<not> (nat (i + 1) \<le> l \<and> l < nat h)" using B [of l] by blast
        moreover have "link (arena sl2) a l = link (arena sl) a l" using A [OF a, of l] False by simp
        ultimately show ?thesis
          using n' [rule_format, of a l] a l1 l2 out by auto
      qed
    qed
    have upt: "[nat i..<nat h] = nat i # [nat (i + 1)..<nat h]"
      using il "1.prems"(1) by (simp add: upt_conv_Cons nat_add_distrib)
    have same: "splice_stores (arena sl2) prev x l = splice_stores (arena sl) prev x l"
      if "l \<in> set [nat (i + 1)..<nat h]" for l
    proof -
      from that have r: "nat i \<le> l \<and> l < nat h" and ne: "l \<noteq> nat i"
        using B [of l] by auto
      with "1.prems"(5) obtain q where q: "prev ! l = Some q" "q < length (arena sl)" by blast
      have "link (arena sl2) q l = link (arena sl) q l" using A [OF q(2), of l] ne by simp
      then show ?thesis using q by (simp add: splice_stores_def)
    qed
    have eq: "map (splice_stores (arena sl2) prev x) [nat (i + 1)..<nat h]
        = map (splice_stores (arena sl) prev x) [nat (i + 1)..<nat h]"
      using same by (intro map_cong refl)
    have st: "stores sl' = stores sl
        @ concat (map (splice_stores (arena sl) prev x) [nat i..<nat h])"
      unfolding t' t2 t1 upt eq by (simp add: splice_stores_def p(1))
    show ?thesis
      unfolding step using r l' l2 l1 k' k2 k1 h' h2 h1 o' o2 o1 st links by simp
  qed
qed

lemma find_append_cases:
  "List.find P (xs @ ys) = (case List.find P xs of None \<Rightarrow> List.find P ys | Some x \<Rightarrow> Some x)"
  by (induction xs) simp_all

lemma find_height_cong:
  "\<forall>a \<in> set xs. height m' a = height m a \<Longrightarrow>
     List.find (\<lambda>a. l < height m' a) xs = List.find (\<lambda>a. l < height m a) xs"
  by (rule find_cong) simp_all

lemma links_ok_cong:
  "\<forall>a \<in> set xs. height m' a = height m a \<and> (\<forall>l < height m a. link m' a l = link m a l) \<Longrightarrow>
     links_ok m' xs = links_ok m xs"
proof (induction xs)
  case Nil
  show ?case by simp
next
  case (Cons x xs)
  then have "\<forall>a \<in> set xs. height m' a = height m a" by simp
  from find_height_cong [OF this] Cons show ?case by simp
qed

lemma last_filter_Cons:
  "filter P post \<noteq> [] \<Longrightarrow> last (filter P (y # post)) = last (filter P post)"
  by simp

lemma links_ok_insert:
  assumes hn: "height m' n = h"
    and tail: "links_ok m' (n # after)"
    and ha: "\<forall>a \<in> set after. height m' a = height m a"
  shows "distinct bs \<Longrightarrow> \<forall>a \<in> set bs. height m' a = height m a \<Longrightarrow>
     \<forall>y \<in> set bs. \<forall>l < height m y. link m' y l =
        (if l < h \<and> y = last (filter (\<lambda>a. l < height m a) bs) then Some n else link m y l) \<Longrightarrow>
     links_ok m (bs @ after) \<Longrightarrow> links_ok m' (bs @ n # after)"
proof (induction bs)
  case Nil
  show ?case using tail by simp
next
  case (Cons y post)
  have d: "distinct post" and hp: "\<forall>a \<in> set post. height m' a = height m a"
    and hy: "height m' y = height m y" and old: "links_ok m (post @ after)"
    using Cons.prems(1,2,4) by (simp_all add: links_ok_suffix [of m "[y]", simplified])
  have lk: "\<forall>z \<in> set post. \<forall>l < height m z. link m' z l =
        (if l < h \<and> z = last (filter (\<lambda>a. l < height m a) post) then Some n else link m z l)"
  proof (intro ballI allI impI)
    fix z l assume z: "z \<in> set post" and l: "l < height m z"
    then have "filter (\<lambda>a. l < height m a) post \<noteq> []" by (auto simp: filter_empty_conv)
    then have "last (filter (\<lambda>a. l < height m a) (y # post)) = last (filter (\<lambda>a. l < height m a) post)"
      by simp
    with Cons.prems(3) z l show "link m' z l =
        (if l < h \<and> z = last (filter (\<lambda>a. l < height m a) post) then Some n else link m z l)"
      by simp
  qed
  have rest: "links_ok m' (post @ n # after)" using Cons.IH [OF d hp lk old] .
  have "link m' y l = List.find (\<lambda>a. l < height m' a) (post @ n # after)"
    if l: "l < height m y" for l
  proof -
    let ?P = "\<lambda>a. l < height m a"
    have o: "link m y l = List.find ?P (post @ after)" using Cons.prems(4) l by simp
    have new: "link m' y l = (if l < h \<and> y = last (filter ?P (y # post)) then Some n else link m y l)"
      using Cons.prems(3) l by simp
    have f: "List.find (\<lambda>a. l < height m' a) (post @ n # after)
        = (case List.find ?P post of None \<Rightarrow> if l < h then Some n else List.find ?P after
           | Some z \<Rightarrow> Some z)"
      using find_height_cong [OF hp, of l] find_height_cong [OF ha, of l] hn
      by (auto simp: find_append_cases split: option.splits)
    show ?thesis
    proof (cases "List.find ?P post")
      case None
      then have "filter ?P post = []" by (auto simp: find_None_iff filter_empty_conv)
      then have "last (filter ?P (y # post)) = y" using l by simp
      with new o f None show ?thesis by (simp add: find_append_cases)
    next
      case (Some z)
      then have ne: "filter ?P post \<noteq> []" by (auto simp: find_Some_iff filter_empty_conv)
      then have lf: "last (filter ?P (y # post)) = last (filter ?P post)" by simp
      have "last (filter ?P post) \<in> set (filter ?P post)" using last_in_set [OF ne] .
      then have "last (filter ?P post) \<in> set post" by simp
      moreover have "y \<notin> set post" using Cons.prems(1) by simp
      ultimately have "y \<noteq> last (filter ?P (y # post))" unfolding lf by blast
      with new o f Some show ?thesis by (simp add: find_append_cases)
    qed
  qed
  with rest hy show ?case by simp
qed

lemma raise_prev_effect:
  "0 \<le> i \<Longrightarrow> nat h \<le> length prev \<Longrightarrow>
     \<exists>prev'. raise_prev prev hp i h = Inr prev' \<and> length prev' = length prev
       \<and> (\<forall>l < length prev. prev' ! l = (if nat i \<le> l \<and> l < nat h then Some hp else prev ! l))"
proof (induction prev hp i h rule: raise_prev.induct)
  case (1 prev hp i h)
  show ?case
  proof (cases "i < h")
    case False
    then have e: "nat i \<le> l \<Longrightarrow> \<not> l < nat h" for l by auto
    show ?thesis using False by (subst raise_prev.simps) (simp add: e cong: conj_cong)
  next
    case True
    have il: "nat i < length prev" using True "1.prems" by linarith
    have step: "raise_prev prev hp i h = raise_prev (prev[nat i := Some hp]) hp (i + 1) h"
      using True il "1.prems"(1) by (subst raise_prev.simps) simp
    have a: "0 \<le> i \<and> nat i < length prev" using il "1.prems"(1) by simp
    have q1: "0 \<le> i + 1" using "1.prems"(1) by simp
    have q2: "nat h \<le> length (prev[nat i := Some hp])" using "1.prems"(2) by simp
    from "1.IH" [OF True a q1 q2] obtain prev' where
      ih: "raise_prev (prev[nat i := Some hp]) hp (i + 1) h = Inr prev'
        \<and> length prev' = length (prev[nat i := Some hp])
        \<and> (\<forall>l < length (prev[nat i := Some hp]). prev' ! l =
          (if nat (i + 1) \<le> l \<and> l < nat h then Some hp else prev[nat i := Some hp] ! l))" ..
    have r: "raise_prev (prev[nat i := Some hp]) hp (i + 1) h = Inr prev'"
      and l: "length prev' = length prev"
      and e: "\<forall>l < length prev. prev' ! l =
          (if nat (i + 1) \<le> l \<and> l < nat h then Some hp else prev[nat i := Some hp] ! l)"
      using ih by simp_all
    have B: "nat (i + 1) \<le> l \<longleftrightarrow> nat i \<le> l \<and> l \<noteq> nat i" for l
      using "1.prems"(1) by auto
    have "prev' ! l = (if nat i \<le> l \<and> l < nat h then Some hp else prev ! l)"
      if "l < length prev" for l
      using e [rule_format, OF that] B [of l] True "1.prems"(1) that
      by (cases "l = nat i") (auto simp: nth_list_update)
    with r l show ?thesis unfolding step by simp
  qed
qed

lemma last_filter_link:
  "links_ok m (bs @ after) \<Longrightarrow> filter (\<lambda>a. l < height m a) bs \<noteq> [] \<Longrightarrow>
     link m (last (filter (\<lambda>a. l < height m a) bs)) l = List.find (\<lambda>a. l < height m a) after"
proof (induction bs)
  case Nil
  then show ?case by simp
next
  case (Cons y post)
  let ?P = "\<lambda>a. l < height m a"
  show ?case
  proof (cases "filter ?P post = []")
    case True
    with Cons.prems(2) have py: "l < height m y" by (simp split: if_splits)
    have la: "last (filter ?P (y # post)) = y" using True py by simp
    have "List.find ?P post = None" using True by (simp add: find_None_iff filter_empty_conv)
    then have "List.find ?P (post @ after) = List.find ?P after" by (simp add: find_append_cases)
    moreover have "link m y l = List.find ?P (post @ after)" using Cons.prems(1) py by simp
    ultimately show ?thesis unfolding la by simp
  next
    case False
    then have la: "last (filter ?P (y # post)) = last (filter ?P post)" by simp
    have "links_ok m (post @ after)" using Cons.prems(1) by simp
    from Cons.IH [OF this False] show ?thesis unfolding la .
  qed
qed

lemma Insert_node_effect:
  fixes sl :: "('k, 'r) SkipList"
  assumes shape: "skiplist_shape sl (before @ after)"
    and len: "length prev = nat kMaxHeight"
    and prev: "\<forall>l. int l < max_height sl \<longrightarrow>
        prev ! l = Some (last (filter (\<lambda>a. l < height (arena sl) a) (head sl # before)))"
  shows "\<exists>sl' h r'. RandomHeight OneIn (rnd sl) = Inr (h, r') \<and> 1 \<le> h \<and> h \<le> kMaxHeight
     \<and> Insert_node OneIn sl k prev = Inr sl'
     \<and> skiplist_shape sl' (before @ length (arena sl) # after)
     \<and> length (arena sl') = Suc (length (arena sl))
     \<and> key (arena sl' ! length (arena sl)) = k
     \<and> (\<forall>a < length (arena sl). key (arena sl' ! a) = key (arena sl ! a)
           \<and> height (arena sl') a = height (arena sl) a)
     \<and> height (arena sl') (length (arena sl)) = nat h
     \<and> head sl' = head sl \<and> max_height sl' = max (max_height sl) h \<and> rnd sl' = r'
     \<and> stores sl' = stores sl
         @ (if h > max_height sl then [MaxHeightStore h memory_order_relaxed] else [])
         @ concat (map (\<lambda>l. [NextStore (length (arena sl)) l
                                (List.find (\<lambda>a. l < height (arena sl) a) after)
                                memory_order_relaxed,
                              NextStore (last (filter (\<lambda>a. l < height (arena sl) a)
                                                 (head sl # before))) l
                                (Some (length (arena sl))) memory_order_release])
                     [0..<nat h])"
proof -
  let ?mem = "arena sl"
  let ?n = "length ?mem"
  let ?hd = "head sl"
  let ?bs = "?hd # before"
  let ?mh = "max_height sl"
  define P where "P l = last (filter (\<lambda>a. l < height ?mem a) ?bs)" for l
  have s: "set (?hd # before @ after) = {..<?n}" and d: "distinct (?hd # before @ after)"
    and hh: "height ?mem ?hd = nat kMaxHeight" and mh: "1 \<le> ?mh" "?mh \<le> kMaxHeight"
    and hs: "\<forall>a \<in> set (before @ after). 1 \<le> height ?mem a \<and> int (height ?mem a) \<le> ?mh"
    and lo: "links_ok ?mem (?hd # before @ after)"
    using shape by (simp_all add: skiplist_shape_def)
  obtain h r' where rh: "RandomHeight OneIn (rnd sl) = Inr (h, r')"
    and h: "1 \<le> h" "h \<le> kMaxHeight"
    using RandomHeight_Inr [of OneIn "rnd sl"] by blast
  \<comment> \<open>the predecessors\<close>
  have Pne: "filter (\<lambda>a. l < height ?mem a) ?bs \<noteq> []" if "l < nat kMaxHeight" for l
    using that hh by simp
  have Pin: "P l \<in> set ?bs" and Ph: "l < height ?mem (P l)" if "l < nat kMaxHeight" for l
  proof -
    have "P l \<in> set (filter (\<lambda>a. l < height ?mem a) ?bs)"
      unfolding P_def using last_in_set [OF Pne [OF that]] .
    then have "P l \<in> set ?bs \<and> l < height ?mem (P l)" unfolding set_filter by blast
    then show "P l \<in> set ?bs" "l < height ?mem (P l)" by blast+
  qed
  have Plt: "P l < ?n" if "l < nat kMaxHeight" for l
    using Pin [OF that] s by auto
  have Phd: "P l = ?hd" if "nat ?mh \<le> l" "l < nat kMaxHeight" for l
  proof -
    have "\<not> l < height ?mem a" if a: "a \<in> set before" for a
    proof -
      from hs a have "int (height ?mem a) \<le> ?mh" by simp
      with \<open>nat ?mh \<le> l\<close> show ?thesis by linarith
    qed
    then have "filter (\<lambda>a. l < height ?mem a) before = []" by (simp add: filter_empty_conv)
    then show ?thesis unfolding P_def using that(2) hh by simp
  qed
  have hl: "nat h \<le> length prev" using h len by simp
  have hk: "nat h \<le> nat kMaxHeight" using h by simp
  \<comment> \<open>raising the height hint\<close>
  let ?sl0 = "sl\<lparr>rnd := r'\<rparr>"
  let ?up = "if h > GetMaxHight ?sl0
             then (case raise_prev prev (head ?sl0) (GetMaxHight ?sl0) h of
                     Inl e \<Rightarrow> Inl e
                   | Inr prev' \<Rightarrow>
                       Inr (prev',
                            ?sl0\<lparr>max_height := h,
                                stores := stores ?sl0
                                  @ [MaxHeightStore h memory_order_relaxed]\<rparr>))
             else Inr (prev, ?sl0)"
  have "\<exists>prev2 sl1. ?up = Inr (prev2, sl1) \<and> length prev2 = length prev
      \<and> (\<forall>l < nat h. prev2 ! l = Some (P l))
      \<and> arena sl1 = ?mem \<and> head sl1 = ?hd \<and> max_height sl1 = max ?mh h \<and> rnd sl1 = r'
      \<and> stores sl1 = stores sl
          @ (if h > ?mh then [MaxHeightStore h memory_order_relaxed] else [])"
  proof (cases "h > ?mh")
    case True
    have "0 \<le> ?mh" using mh by simp
    from raise_prev_effect [OF this hl, of ?hd] obtain prev' where
      r: "raise_prev prev ?hd ?mh h = Inr prev'" and l: "length prev' = length prev"
      and e: "\<forall>l < length prev. prev' ! l =
          (if nat ?mh \<le> l \<and> l < nat h then Some ?hd else prev ! l)"
      by blast
    have "prev' ! l = Some (P l)" if "l < nat h" for l
    proof (cases "nat ?mh \<le> l")
      case True
      with that e hl have "prev' ! l = Some ?hd" by simp
      moreover have "P l = ?hd" using Phd [OF True] that hk by simp
      ultimately show ?thesis by simp
    next
      case False
      then have "int l < ?mh" by simp
      with prev have "prev ! l = Some (P l)" unfolding P_def by blast
      with that e hl False show ?thesis by simp
    qed
    with True r l show ?thesis by (simp add: GetMaxHight_def)
  next
    case False
    have "prev ! l = Some (P l)" if "l < nat h" for l
    proof -
      from that False have "int l < ?mh" by simp
      with prev show ?thesis unfolding P_def by blast
    qed
    with False show ?thesis by (simp add: GetMaxHight_def)
  qed
  then obtain prev2 sl1 where up: "?up = Inr (prev2, sl1)"
    and l2: "length prev2 = length prev" and p2: "\<forall>l < nat h. prev2 ! l = Some (P l)"
    and f1: "arena sl1 = ?mem" "head sl1 = ?hd" "max_height sl1 = max ?mh h" "rnd sl1 = r'"
    and st1: "stores sl1 = stores sl
          @ (if h > ?mh then [MaxHeightStore h memory_order_relaxed] else [])"
    by blast
  \<comment> \<open>the new node\<close>
  let ?mem2 = "?mem @ [\<lparr>key = k, nexts = replicate (nat h) None\<rparr>]"
  let ?sl2 = "sl1\<lparr>arena := ?mem2\<rparr>"
  have nn: "NewNode sl1 k h = (?n, ?sl2)" by (simp add: NewNode_def f1)
  have m2: "arena ?sl2 = ?mem2" by simp
  have h2: "height ?mem2 a = (if a = ?n then nat h else height ?mem a)" if "a \<le> ?n" for a
    using that by (simp add: height_def nth_append)
  have k2: "key (?mem2 ! a) = (if a = ?n then k else key (?mem ! a))" if "a \<le> ?n" for a
    using that by (simp add: nth_append)
  have li2: "link ?mem2 a l = link ?mem a l" if "a < ?n" for a l
    using that by (simp add: link_def nth_append)
  have c2: "n < length (arena ?sl2)" if "n = ?n" for n using that by simp
  have c3: "nat h \<le> height (arena ?sl2) ?n" using h2 [of ?n] by simp
  have c4: "nat h \<le> length prev2" using hl l2 by simp
  have c5: "\<forall>l. nat 0 \<le> l \<and> l < nat h \<longrightarrow>
        (\<exists>p. prev2 ! l = Some p \<and> p < length (arena ?sl2) \<and> p \<noteq> ?n
           \<and> l < height (arena ?sl2) p)"
  proof (intro allI impI)
    fix l assume "nat 0 \<le> l \<and> l < nat h"
    then have l: "l < nat h" and lk: "l < nat kMaxHeight" using hk by simp_all
    have "prev2 ! l = Some (P l)" using p2 l by simp
    moreover have "P l < ?n" using Plt [OF lk] .
    moreover have "l < height ?mem2 (P l)" using Ph [OF lk] Plt [OF lk] h2 [of "P l"] by simp
    ultimately show "\<exists>p. prev2 ! l = Some p \<and> p < length (arena ?sl2) \<and> p \<noteq> ?n
           \<and> l < height (arena ?sl2) p" by simp
  qed
  from splice_effect [OF order_refl c2 [OF refl] c3 c4 c5] obtain sl' where
    sp: "splice ?sl2 prev2 ?n 0 h = Inr sl'"
    and l': "length (arena sl') = length (arena ?sl2)"
    and k': "\<forall>a. key (arena sl' ! a) = key (arena ?sl2 ! a)"
    and h': "\<forall>a. height (arena sl') a = height (arena ?sl2) a"
    and n': "\<forall>a l. a < length (arena ?sl2) \<longrightarrow>
            link (arena sl') a l =
              (if nat 0 \<le> l \<and> l < nat h \<and> a = ?n then link (arena ?sl2) (the (prev2 ! l)) l
               else if nat 0 \<le> l \<and> l < nat h \<and> prev2 ! l = Some a then Some ?n
               else link (arena ?sl2) a l)"
    and o': "head sl' = head ?sl2" "max_height sl' = max_height ?sl2" "rnd sl' = rnd ?sl2"
    and t': "stores sl' = stores ?sl2
        @ concat (map (splice_stores (arena ?sl2) prev2 ?n) [nat 0..<nat h])"
    by blast
  have ins: "Insert_node OneIn sl k prev = Inr sl'"
    unfolding Insert_node_def rh by (simp add: Let_def up nn sp)
  \<comment> \<open>the memory after the splice\<close>
  let ?mem' = "arena sl'"
  have L: "length ?mem' = Suc ?n" using l' by simp
  have K: "key (?mem' ! a) = (if a = ?n then k else key (?mem ! a))" if "a \<le> ?n" for a
    using k' k2 [OF that] by simp
  have H: "height ?mem' a = (if a = ?n then nat h else height ?mem a)" if "a \<le> ?n" for a
    using h' h2 [OF that] by simp
  have Psucc: "link ?mem (P l) l = List.find (\<lambda>a. l < height ?mem a) after" if "l < nat h" for l
  proof -
    have "l < nat kMaxHeight" using that hk by simp
    from last_filter_link [of ?mem ?bs after l, OF _ Pne [OF this]] lo
    show ?thesis unfolding P_def by simp
  qed
  have LK: "link ?mem' a l =
      (if l < nat h \<and> a = ?n then List.find (\<lambda>a. l < height ?mem a) after
       else if l < nat h \<and> a = P l then Some ?n
       else link ?mem a l)" if a: "a \<le> ?n" "l < nat h \<or> a < ?n" for a l
  proof (cases "l < nat h")
    case True
    then have lk: "l < nat kMaxHeight" using hk by simp
    have pl: "prev2 ! l = Some (P l)" using p2 True by simp
    have "link ?mem2 (P l) l = link ?mem (P l) l" using li2 [OF Plt [OF lk]] .
    then have 1: "link (arena ?sl2) (the (prev2 ! l)) l = List.find (\<lambda>a. l < height ?mem a) after"
      using pl Psucc [OF True] by simp
    have 2: "link (arena ?sl2) a l = link ?mem a l" if "a \<noteq> ?n"
      using li2 [of a l] that a by simp
    have 3: "P l \<noteq> ?n" using Plt [OF lk] by simp
    from n' [rule_format, of a l] a True pl 1 2 3 show ?thesis by auto
  next
    case False
    with a have "a < ?n" by simp
    then have "link (arena ?sl2) a l = link ?mem a l" using li2 [of a l] by simp
    with n' [rule_format, of a l] a False show ?thesis by simp
  qed
  \<comment> \<open>the shape of the new list\<close>
  have m: "a \<in> set (?hd # before @ after) \<longleftrightarrow> a < ?n" for a unfolding s by simp
  have hdn: "?hd < ?n" using m [of ?hd] by simp
  have ban: "\<forall>a \<in> set (before @ after). a < ?n"
  proof
    fix a assume "a \<in> set (before @ after)"
    then have "a \<in> set (?hd # before @ after)" by simp
    then show "a < ?n" by (simp only: m)
  qed
  have bsn: "\<forall>a \<in> set ?bs. a < ?n" using hdn ban by simp
  have nin: "?n \<notin> set (?hd # before @ after)" by (simp only: m)
  have "set (?hd # before @ ?n # after) = insert ?n (set (?hd # before @ after))" by auto
  also have "\<dots> = {..<Suc ?n}" unfolding s by (simp add: lessThan_Suc)
  finally have s1: "set (head sl' # before @ ?n # after) = {..<length ?mem'}"
    unfolding L o' using f1 by simp
  have "distinct (?hd # before @ ?n # after)" using d nin by auto
  then have s2: "distinct (head sl' # before @ ?n # after)"
    unfolding o' using f1 by simp
  have s3: "height ?mem' (head sl') = nat kMaxHeight"
    unfolding o' using H [of ?hd] hdn hh f1 by simp
  have s4: "1 \<le> max_height sl'" "max_height sl' \<le> kMaxHeight"
    unfolding o' using f1 mh h by simp_all
  have s5: "\<forall>a \<in> set (before @ ?n # after).
      1 \<le> height ?mem' a \<and> int (height ?mem' a) \<le> max_height sl'"
  proof
    fix a assume a: "a \<in> set (before @ ?n # after)"
    show "1 \<le> height ?mem' a \<and> int (height ?mem' a) \<le> max_height sl'"
    proof (cases "a = ?n")
      case True
      then show ?thesis unfolding o' using H [of ?n] h f1 by simp
    next
      case False
      with a have m: "a \<in> set (before @ after)" by auto
      with ban have "a < ?n" by blast
      then have "height ?mem' a = height ?mem a" using H [of a] by simp
      with hs m show ?thesis unfolding o' using f1 by fastforce
    qed
  qed
  have ha: "\<forall>a \<in> set after. height ?mem' a = height ?mem a"
    using ban H by (auto simp: less_imp_le)
  have hb: "\<forall>a \<in> set ?bs. height ?mem' a = height ?mem a"
    using bsn H by (auto simp: less_imp_le)
  have hn: "height ?mem' ?n = nat h" using H [of ?n] by simp
  have after_links: "links_ok ?mem' after = links_ok ?mem after"
  proof (rule links_ok_cong, intro ballI conjI allI impI)
    fix a assume a: "a \<in> set after"
    then show "height ?mem' a = height ?mem a" using ha by blast
    fix l assume "l < height ?mem a"
    have an: "a < ?n" using a ban by simp
    have "a \<noteq> P l" if "l < nat h"
    proof -
      have "P l \<in> set ?bs" using Pin [of l] that hk by simp
      with d a show ?thesis by auto
    qed
    with LK [of a l] an show "link ?mem' a l = link ?mem a l" by auto
  qed
  have "links_ok ?mem (?bs @ after)" using lo by simp
  then have "links_ok ?mem after" by (rule links_ok_suffix)
  with after_links have la: "links_ok ?mem' after" by simp
  have tail: "links_ok ?mem' (?n # after)"
  proof -
    have "link ?mem' ?n l = List.find (\<lambda>a. l < height ?mem' a) after" if "l < nat h" for l
      using LK [of ?n l] that find_height_cong [OF ha, of l] by simp
    with la hn show ?thesis by simp
  qed
  have lk: "\<forall>y \<in> set ?bs. \<forall>l < height ?mem y. link ?mem' y l =
        (if l < nat h \<and> y = last (filter (\<lambda>a. l < height ?mem a) ?bs) then Some ?n
         else link ?mem y l)"
  proof (intro ballI allI impI)
    fix y l assume "y \<in> set ?bs"
    with bsn have "y < ?n" by blast
    with LK [of y l] show "link ?mem' y l =
        (if l < nat h \<and> y = last (filter (\<lambda>a. l < height ?mem a) ?bs) then Some ?n
         else link ?mem y l)"
      unfolding P_def by simp
  qed
  have db: "distinct ?bs" using d by simp
  have "links_ok ?mem' (?bs @ ?n # after)"
    using links_ok_insert [OF hn tail ha db hb lk] lo by simp
  then have s6: "links_ok ?mem' (head sl' # before @ ?n # after)" unfolding o' using f1 by simp
  have shape': "skiplist_shape sl' (before @ ?n # after)"
    unfolding skiplist_shape_def using s1 s2 s3 s4 s5 s6 by blast
  \<comment> \<open>the stores\<close>
  have eq: "map (splice_stores (arena ?sl2) prev2 ?n) [nat 0..<nat h]
      = map (\<lambda>l. [NextStore ?n l (List.find (\<lambda>a. l < height ?mem a) after) memory_order_relaxed,
                   NextStore (P l) l (Some ?n) memory_order_release]) [0..<nat h]"
  proof (simp only: nat_0, intro map_cong refl)
    fix l assume "l \<in> set [0..<nat h]"
    then have l: "l < nat h" by simp
    then have lk: "l < nat kMaxHeight" using hk by simp
    have "link ?mem2 (P l) l = link ?mem (P l) l" using li2 [OF Plt [OF lk]] .
    then show "splice_stores (arena ?sl2) prev2 ?n l
        = [NextStore ?n l (List.find (\<lambda>a. l < height ?mem a) after) memory_order_relaxed,
           NextStore (P l) l (Some ?n) memory_order_release]"
      using p2 l Psucc [OF l] by (simp add: splice_stores_def)
  qed
  have st: "stores sl' = stores sl
         @ (if h > ?mh then [MaxHeightStore h memory_order_relaxed] else [])
         @ concat (map (\<lambda>l. [NextStore ?n l (List.find (\<lambda>a. l < height ?mem a) after)
                                memory_order_relaxed,
                              NextStore (P l) l (Some ?n) memory_order_release])
                     [0..<nat h])"
    unfolding t' eq by (simp add: st1)
  have keys: "\<forall>a < ?n. key (?mem' ! a) = key (?mem ! a) \<and> height ?mem' a = height ?mem a"
    using K H by (simp add: less_imp_le)
  have kn: "key (?mem' ! ?n) = k" using K [of ?n] by simp
  have flds: "head sl' = ?hd" "max_height sl' = max ?mh h" "rnd sl' = r'"
    unfolding o' using f1 by simp_all
  show ?thesis
    using rh h ins shape' L kn keys hn flds st unfolding P_def by blast
qed

lemma comparator_flip: "comparator_ok compare \<Longrightarrow> (compare a b < 0) = (compare b a > 0)"
  unfolding comparator_ok_def by blast

lemma comparator_le_trans:
  "comparator_ok compare \<Longrightarrow> compare a b \<le> 0 \<Longrightarrow> compare b c \<le> 0 \<Longrightarrow> compare a c \<le> 0"
  unfolding comparator_ok_def by blast

lemma comparator_eq_sym: "comparator_ok compare \<Longrightarrow> (compare a b = 0) = (compare b a = 0)"
  using comparator_flip [of compare a b] comparator_flip [of compare b a] by auto

text \<open>The search of \<open>Insert\<close>, with its array of \<open>kMaxHeight\<close> unwritten entries.\<close>

lemma Insert_search:
  assumes ok: "comparator_ok compare" and inv: "skiplist_inv compare sl chain"
  shows "\<exists>p. FindGreaterOrEqual compare sl k (Some (replicate (nat kMaxHeight) None))
        = Some (Inr (List.find (\<lambda>a. compare (key (arena sl ! a)) k \<ge> 0) chain, Some p))
      \<and> length p = nat kMaxHeight
      \<and> (\<forall>l. int l < max_height sl \<longrightarrow>
            p ! l = Some (predecessor compare (arena sl) k (head sl) chain l))"
proof -
  have mh: "max_height sl \<le> kMaxHeight"
    using inv by (simp add: skiplist_inv_def skiplist_shape_def)
  then have len: "\<forall>p. Some (replicate (nat kMaxHeight) None) = Some p
      \<longrightarrow> max_height sl \<le> int (length (p :: ptr list))"
    by (auto simp: kMaxHeight_def)
  from FindGreaterOrEqual_spec [OF ok inv len, of k] show ?thesis
  proof (elim exE conjE)
    fix prev'
    assume r: "FindGreaterOrEqual compare sl k (Some (replicate (nat kMaxHeight) None))
        = Some (Inr (List.find (\<lambda>a. compare (key (arena sl ! a)) k \<ge> 0) chain, prev'))"
      and s: "\<forall>p. Some (replicate (nat kMaxHeight) None) = Some p \<longrightarrow>
        (\<exists>p'. prev' = Some p' \<and> length p' = length (p :: ptr list)
             \<and> (\<forall>l < length p. p' ! l =
                   (if int l < max_height sl
                    then Some (predecessor compare (arena sl) k (head sl) chain l)
                    else p ! l)))"
    from s [rule_format, OF refl] obtain p' where p': "prev' = Some p'"
      and l: "length p' = length (replicate (nat kMaxHeight) (None :: ptr))"
      and e: "\<forall>l < length (replicate (nat kMaxHeight) (None :: ptr)). p' ! l =
                   (if int l < max_height sl
                    then Some (predecessor compare (arena sl) k (head sl) chain l)
                    else replicate (nat kMaxHeight) None ! l)"
      by (elim exE conjE)
    have "p' ! l = Some (predecessor compare (arena sl) k (head sl) chain l)"
      if "int l < max_height sl" for l
    proof -
      from that mh have "l < nat kMaxHeight" by linarith
      with e that show ?thesis by simp
    qed
    with r p' l show ?thesis by simp
  qed
qed

lemma found_equal:
  assumes ok: "comparator_ok compare"
    and srt: "keys_increasing compare mem chain"
    and dup: "\<exists>a \<in> set chain. compare k (key (mem ! a)) = 0"
  shows "\<exists>x. List.find (\<lambda>a. compare (key (mem ! a)) k \<ge> 0) chain = Some x
      \<and> x \<in> set chain \<and> compare k (key (mem ! x)) = 0"
proof -
  from dup obtain a where a: "a \<in> set chain" "compare k (key (mem ! a)) = 0" by blast
  then have ak: "compare (key (mem ! a)) k = 0" using comparator_eq_sym [OF ok] by blast
  with a have "\<exists>x. x \<in> set chain \<and> compare (key (mem ! x)) k \<ge> 0" by auto
  then obtain x where f: "List.find (\<lambda>a. compare (key (mem ! a)) k \<ge> 0) chain = Some x"
    by (cases "List.find (\<lambda>a. compare (key (mem ! a)) k \<ge> 0) chain")
      (auto simp: find_None_iff)
  from find_Some_split [OF f] obtain p1 p2 where
    c: "chain = p1 @ x # p2" and x: "compare (key (mem ! x)) k \<ge> 0"
    and p1: "\<forall>b \<in> set p1. \<not> compare (key (mem ! b)) k \<ge> 0" by blast
  have "x = a"
  proof (rule ccontr)
    assume "x \<noteq> a"
    with a(1) c p1 ak have "a \<in> set p2" by auto
    with srt c have "compare (key (mem ! x)) (key (mem ! a)) < 0"
      by (auto simp: keys_increasing_def sorted_wrt_append)
    then have "compare (key (mem ! x)) (key (mem ! a)) \<le> 0" by simp
    from comparator_le_trans [OF ok this, of k] ak have "compare (key (mem ! x)) k \<le> 0" by simp
    with x have "compare (key (mem ! x)) k = 0" by simp
    then have "compare k (key (mem ! x)) \<le> 0" using comparator_eq_sym [OF ok, of "key (mem ! x)" k] by simp
    from comparator_le_trans [OF ok _ this, of "key (mem ! a)"] ak
    have "compare (key (mem ! a)) (key (mem ! x)) \<le> 0" by simp
    with \<open>compare (key (mem ! x)) (key (mem ! a)) < 0\<close> show False
      using comparator_flip [OF ok, of "key (mem ! x)" "key (mem ! a)"] by simp
  qed
  with f a c show ?thesis by auto
qed


lemma Insert_calls_Insert_node:
  fixes sl :: "('k, 'r) SkipList"
  assumes ok: "comparator_ok compare" and inv: "skiplist_inv compare sl chain"
    and chk: "ndebug \<or> (\<forall>a \<in> set chain. compare k (key (arena sl ! a)) \<noteq> 0)"
  shows "\<exists>p. Insert ndebug OneIn compare sl k = Some (Insert_node OneIn sl k p)
      \<and> length p = nat kMaxHeight
      \<and> (\<forall>l. int l < max_height sl \<longrightarrow>
            p ! l = Some (predecessor compare (arena sl) k (head sl) chain l))"
proof -
  let ?x = "List.find (\<lambda>a. compare (key (arena sl ! a)) k \<ge> 0) chain"
  from Insert_search [OF ok inv, of k] obtain p where
    r: "FindGreaterOrEqual compare sl k (Some (replicate (nat kMaxHeight) None))
        = Some (Inr (?x, Some p))"
    and l: "length p = nat kMaxHeight"
    and e: "\<forall>l. int l < max_height sl \<longrightarrow>
            p ! l = Some (predecessor compare (arena sl) k (head sl) chain l)"
    by (elim exE conjE)
  have nd: "(if ndebug then Inr True else no_duplicate compare (arena sl) k ?x) = Inr True"
  proof (cases ndebug)
    case True
    then show ?thesis by simp
  next
    case False
    with chk have nodup: "\<forall>a \<in> set chain. compare k (key (arena sl ! a)) \<noteq> 0" by simp
    show ?thesis
    proof (cases ?x)
      case None
      with False show ?thesis by (simp add: no_duplicate_def)
    next
      case (Some a)
      then have a: "a \<in> set chain" by (auto simp: find_Some_iff)
      have "set (head sl # chain) = {..<length (arena sl)}"
        using inv by (simp add: skiplist_inv_def skiplist_shape_def)
      with a have "a < length (arena sl)" by auto
      with Some False nodup a show ?thesis by (simp add: no_duplicate_def Equal_def)
    qed
  qed
  have "Insert ndebug OneIn compare sl k = Some (Insert_node OneIn sl k p)"
    unfolding Insert_def r using nd by simp
  with l e show ?thesis by blast
qed

lemma Insert_effect:
  fixes sl :: "('k, 'r) SkipList"
  assumes ok: "comparator_ok compare" and inv: "skiplist_inv compare sl chain"
    and chk: "ndebug \<or> (\<forall>a \<in> set chain. compare k (key (arena sl ! a)) \<noteq> 0)"
  shows "\<exists>sl' h r'. RandomHeight OneIn (rnd sl) = Inr (h, r') \<and> 1 \<le> h \<and> h \<le> kMaxHeight
     \<and> Insert ndebug OneIn compare sl k = Some (Inr sl')
     \<and> skiplist_shape sl' (takeWhile (key_less compare (arena sl) k) chain
           @ length (arena sl) # dropWhile (key_less compare (arena sl) k) chain)
     \<and> length (arena sl') = Suc (length (arena sl))
     \<and> key (arena sl' ! length (arena sl)) = k
     \<and> (\<forall>a < length (arena sl). key (arena sl' ! a) = key (arena sl ! a)
           \<and> height (arena sl') a = height (arena sl) a)
     \<and> height (arena sl') (length (arena sl)) = nat h
     \<and> head sl' = head sl \<and> max_height sl' = max (max_height sl) h \<and> rnd sl' = r'
     \<and> stores sl' = stores sl
         @ (if h > max_height sl then [MaxHeightStore h memory_order_relaxed] else [])
         @ concat (map (\<lambda>l. [NextStore (length (arena sl)) l
                                (List.find (\<lambda>a. l < height (arena sl) a)
                                   (dropWhile (key_less compare (arena sl) k) chain))
                                memory_order_relaxed,
                              NextStore (predecessor compare (arena sl) k (head sl) chain l) l
                                (Some (length (arena sl))) memory_order_release])
                     [0..<nat h])"
proof -
  let ?before = "takeWhile (key_less compare (arena sl) k) chain"
  let ?after = "dropWhile (key_less compare (arena sl) k) chain"
  from Insert_calls_Insert_node [OF ok inv chk, of OneIn] obtain p where
    i: "Insert ndebug OneIn compare sl k = Some (Insert_node OneIn sl k p)"
    and l: "length p = nat kMaxHeight"
    and e: "\<forall>l. int l < max_height sl \<longrightarrow>
            p ! l = Some (last (filter (\<lambda>a. l < height (arena sl) a) (head sl # ?before)))"
    unfolding predecessor_def by (elim exE conjE)
  have shape: "skiplist_shape sl (?before @ ?after)"
    using inv by (simp add: skiplist_inv_def)
  from Insert_node_effect [OF shape l e, of OneIn k] show ?thesis
    unfolding i predecessor_def by simp
qed

lemma after_keys_greater:
  assumes ok: "comparator_ok compare"
    and srt: "keys_increasing compare mem chain"
    and a: "a \<in> set (dropWhile (key_less compare mem k) chain)"
  shows "compare k (key (mem ! a)) \<le> 0"
proof -
  let ?after = "dropWhile (key_less compare mem k) chain"
  have ne: "?after \<noteq> []"
  proof
    assume "?after = []"
    then have "set ?after = {}" by (simp only: set_empty)
    with a show False by (metis empty_iff)
  qed
  then obtain f rest where fr: "?after = f # rest" by (cases ?after) auto
  have "\<not> key_less compare mem k (hd ?after)" using hd_dropWhile [OF ne] .
  then have "\<not> compare (key (mem ! f)) k < 0" using fr by (simp add: key_less_def)
  then have f: "compare k (key (mem ! f)) \<le> 0" using comparator_flip [OF ok, of "key (mem ! f)" k]
    by simp
  show ?thesis
  proof (cases "a = f")
    case True
    with f show ?thesis by simp
  next
    case False
    with a fr have ar: "a \<in> set rest" by simp
    have "chain = takeWhile (key_less compare mem k) chain @ f # rest"
      using fr takeWhile_dropWhile_id [of "key_less compare mem k" chain] by simp
    with srt have "sorted_wrt (\<lambda>a b. compare (key (mem ! a)) (key (mem ! b)) < 0)
        (takeWhile (key_less compare mem k) chain @ f # rest)"
      by (simp add: keys_increasing_def)
    with ar have "compare (key (mem ! f)) (key (mem ! a)) < 0"
      by (simp add: sorted_wrt_append)
    then have "compare (key (mem ! f)) (key (mem ! a)) \<le> 0" by simp
    from comparator_le_trans [OF ok f this] show ?thesis .
  qed
qed

lemma keys_increasing_insert:
  assumes ok: "comparator_ok compare"
    and srt: "keys_increasing compare mem chain"
    and nodup: "\<forall>a \<in> set chain. compare k (key (mem ! a)) \<noteq> 0"
    and keys: "\<forall>a \<in> set chain. key (mem' ! a) = key (mem ! a)"
    and kn: "key (mem' ! n) = k"
  shows "keys_increasing compare mem'
      (takeWhile (key_less compare mem k) chain @ n # dropWhile (key_less compare mem k) chain)"
proof -
  let ?before = "takeWhile (key_less compare mem k) chain"
  let ?after = "dropWhile (key_less compare mem k) chain"
  let ?R = "\<lambda>a b. compare (key (mem ! a)) (key (mem ! b)) < 0"
  let ?R' = "\<lambda>a b. compare (key (mem' ! a)) (key (mem' ! b)) < 0"
  have c: "chain = ?before @ ?after" by simp
  have sub: "set ?before \<subseteq> set chain" "set ?after \<subseteq> set chain"
    by (auto dest: set_takeWhileD set_dropWhileD)
  from srt have "sorted_wrt ?R (?before @ ?after)" by (simp add: keys_increasing_def)
  then have sb: "sorted_wrt ?R ?before" and sa: "sorted_wrt ?R ?after"
    and ba: "\<forall>b \<in> set ?before. \<forall>a \<in> set ?after. ?R b a"
    unfolding sorted_wrt_append by blast+
  have kb: "\<forall>a \<in> set ?before. key (mem' ! a) = key (mem ! a)"
    and ka: "\<forall>a \<in> set ?after. key (mem' ! a) = key (mem ! a)"
    using sub keys by blast+
  have sb': "sorted_wrt ?R' ?before"
    by (rule sorted_wrt_mono_rel [OF _ sb]) (simp add: kb)
  have sa': "sorted_wrt ?R' ?after"
    by (rule sorted_wrt_mono_rel [OF _ sa]) (simp add: ka)
  have bk: "\<forall>b \<in> set ?before. ?R' b n"
  proof
    fix b assume b: "b \<in> set ?before"
    then have "key_less compare mem k b" by (rule set_takeWhileD [THEN conjunct2])
    with b kb kn show "?R' b n" by (simp add: key_less_def)
  qed
  have kg: "\<forall>a \<in> set ?after. ?R' n a"
  proof
    fix a assume a: "a \<in> set ?after"
    from after_keys_greater [OF ok srt a] have "compare k (key (mem ! a)) \<le> 0" .
    moreover have "compare k (key (mem ! a)) \<noteq> 0" using nodup a sub by blast
    ultimately show "?R' n a" using a ka kn by simp
  qed
  have ba': "\<forall>b \<in> set ?before. \<forall>a \<in> set ?after. ?R' b a"
    using ba kb ka by simp
  show ?thesis
    unfolding keys_increasing_def sorted_wrt_append using sb' sa' bk kg ba' by simp
qed

lemma init_head_effect:
  "0 \<le> i \<Longrightarrow> head sl < length (arena sl) \<Longrightarrow> nat kMaxHeight \<le> height (arena sl) (head sl) \<Longrightarrow>
   \<exists>sl'. init_head sl i = Inr sl'
     \<and> length (arena sl') = length (arena sl)
     \<and> (\<forall>a. key (arena sl' ! a) = key (arena sl ! a))
     \<and> (\<forall>a. height (arena sl') a = height (arena sl) a)
     \<and> (\<forall>a l. a < length (arena sl) \<longrightarrow>
            link (arena sl') a l =
              (if a = head sl \<and> nat i \<le> l \<and> l < nat kMaxHeight then None
               else link (arena sl) a l))
     \<and> head sl' = head sl \<and> max_height sl' = max_height sl \<and> rnd sl' = rnd sl"
proof (induction sl i rule: init_head.induct)
  case (1 sl i)
  show ?case
  proof (cases "i < kMaxHeight")
    case False
    then have e: "nat i \<le> l \<Longrightarrow> \<not> l < nat kMaxHeight" for l by auto
    show ?thesis using False by (subst init_head.simps) (simp add: e cong: conj_cong)
  next
    case True
    have hi: "nat i < height (arena sl) (head sl)" using True "1.prems"(1,3) by linarith
    from store_next_effect [OF "1.prems"(1) "1.prems"(2) hi, of memory_order_release None]
    obtain sl1 where s1: "SetNext sl (head sl) i None = Inr sl1"
      and l1: "length (arena sl1) = length (arena sl)"
      and k1: "\<forall>a. key (arena sl1 ! a) = key (arena sl ! a)"
      and h1: "\<forall>a. height (arena sl1) a = height (arena sl) a"
      and n1: "\<forall>a l. a < length (arena sl) \<longrightarrow> link (arena sl1) a l =
          (if a = head sl \<and> l = nat i then None else link (arena sl) a l)"
      and o1: "head sl1 = head sl" "max_height sl1 = max_height sl" "rnd sl1 = rnd sl"
      unfolding SetNext_def by (elim exE conjE)
    have step: "init_head sl i = init_head sl1 (i + 1)"
      by (subst init_head.simps) (simp add: True s1)
    have q1: "0 \<le> i + 1" using "1.prems"(1) by simp
    have q2: "head sl1 < length (arena sl1)" using "1.prems"(2) l1 o1 by simp
    have q3: "nat kMaxHeight \<le> height (arena sl1) (head sl1)" using "1.prems"(3) h1 o1 by simp
    from "1.IH" [OF True s1 q1 q2 q3] obtain sl' where
      r: "init_head sl1 (i + 1) = Inr sl'"
      and l': "length (arena sl') = length (arena sl1)"
      and k': "\<forall>a. key (arena sl' ! a) = key (arena sl1 ! a)"
      and h': "\<forall>a. height (arena sl') a = height (arena sl1) a"
      and n': "\<forall>a l. a < length (arena sl1) \<longrightarrow>
            link (arena sl') a l =
              (if a = head sl1 \<and> nat (i + 1) \<le> l \<and> l < nat kMaxHeight then None
               else link (arena sl1) a l)"
      and o': "head sl' = head sl1" "max_height sl' = max_height sl1" "rnd sl' = rnd sl1"
      by (elim exE conjE)
    have B: "nat (i + 1) \<le> l \<longleftrightarrow> nat i \<le> l \<and> l \<noteq> nat i" for l
      using "1.prems"(1) by auto
    have il: "nat i < nat kMaxHeight" using True "1.prems"(1) by simp
    have "link (arena sl') a l =
              (if a = head sl \<and> nat i \<le> l \<and> l < nat kMaxHeight then None
               else link (arena sl) a l)" if a: "a < length (arena sl)" for a l
      using n' [rule_format, of a l] n1 [rule_format, OF a, of l] a l1 o1 B [of l] il
      by (cases "l = nat i") auto
    then show ?thesis unfolding step using r l' l1 k' k1 h' h1 o' o1 by simp
  qed
qed

lemma SkipList_ctor_inv:
  "\<exists>sl. SkipList_ctor Random k0 = Inr sl \<and> skiplist_inv compare sl []
     \<and> rnd sl = Random 0xdeadbeef \<and> max_height sl = 1"
proof -
  let ?s = "\<lparr>arena = [\<lparr>key = k0, nexts = replicate (nat kMaxHeight) None\<rparr>],
        head = 0, max_height = 1, rnd = Random 0xdeadbeef, stores = []\<rparr>"
  have 1: "head ?s < length (arena ?s)" by simp
  have 2: "nat kMaxHeight \<le> height (arena ?s) (head ?s)" by (simp add: height_def)
  from init_head_effect [OF order_refl 1 2] obtain sl where
    r: "init_head ?s 0 = Inr sl"
    and l: "length (arena sl) = length (arena ?s)"
    and h: "\<forall>a. height (arena sl) a = height (arena ?s) a"
    and n: "\<forall>a l. a < length (arena ?s) \<longrightarrow>
            link (arena sl) a l =
              (if a = head ?s \<and> nat 0 \<le> l \<and> l < nat kMaxHeight then None
               else link (arena ?s) a l)"
    and o: "head sl = head ?s" "max_height sl = max_height ?s" "rnd sl = rnd ?s"
    by (elim exE conjE)
  have hh: "height (arena sl) 0 = nat kMaxHeight" using h by (simp add: height_def)
  have "link (arena sl) 0 l = None" if "l < nat kMaxHeight" for l
    using n [rule_format, of 0 l] that by simp
  then have "links_ok (arena sl) [0]" using hh by simp
  then have "skiplist_inv compare sl []"
    using l o hh
    by (simp add: skiplist_inv_def skiplist_shape_def keys_increasing_def kMaxHeight_def
        lessThan_Suc)
  with r o show ?thesis by (simp add: SkipList_ctor_def)
qed

lemma comparator_refl:
  assumes "comparator_ok compare"
  shows "compare a a = 0"
  using comparator_flip [OF assms, of a a] by (cases "compare a a < 0") auto

lemma Insert_preserves_inv:
  fixes sl :: "('k, 'r) SkipList"
  assumes ok: "comparator_ok compare" and inv: "skiplist_inv compare sl chain"
    and nodup: "\<forall>a \<in> set chain. compare k (key (arena sl ! a)) \<noteq> 0"
  shows "\<exists>sl'. Insert ndebug OneIn compare sl k = Some (Inr sl')
     \<and> skiplist_inv compare sl' (takeWhile (key_less compare (arena sl) k) chain
           @ length (arena sl) # dropWhile (key_less compare (arena sl) k) chain)
     \<and> key (arena sl' ! length (arena sl)) = k
     \<and> (\<forall>a \<in> set chain. key (arena sl' ! a) = key (arena sl ! a))"
proof -
  have chk: "ndebug \<or> (\<forall>a \<in> set chain. compare k (key (arena sl ! a)) \<noteq> 0)"
    using nodup by simp
  from Insert_effect [OF ok inv chk, of OneIn] obtain sl' where
    i: "Insert ndebug OneIn compare sl k = Some (Inr sl')"
    and shape: "skiplist_shape sl' (takeWhile (key_less compare (arena sl) k) chain
           @ length (arena sl) # dropWhile (key_less compare (arena sl) k) chain)"
    and kn: "key (arena sl' ! length (arena sl)) = k"
    and keys: "\<forall>a < length (arena sl). key (arena sl' ! a) = key (arena sl ! a)
           \<and> height (arena sl') a = height (arena sl) a"
    by (elim exE conjE)
  have "set (head sl # chain) = {..<length (arena sl)}"
    using inv by (simp add: skiplist_inv_def skiplist_shape_def)
  then have "\<forall>a \<in> set chain. a < length (arena sl)" by auto
  with keys have kc: "\<forall>a \<in> set chain. key (arena sl' ! a) = key (arena sl ! a)" by simp
  have srt: "keys_increasing compare (arena sl) chain" using inv by (simp add: skiplist_inv_def)
  from keys_increasing_insert [OF ok srt nodup kc kn] shape i kn kc
  show ?thesis by (simp add: skiplist_inv_def)
qed

lemma level0_chain_unique:
  "level0_chain mem p xs \<Longrightarrow> level0_chain mem p ys \<Longrightarrow> xs = ys"
proof (induction arbitrary: ys rule: level0_chain.induct)
  case level0_end
  then show ?case by (cases rule: level0_chain.cases) simp
next
  case (level0_step x n xs)
  from level0_step.prems obtain m zs where ys: "ys = x # zs"
    and m: "Next mem x 0 = Inr m" and z: "level0_chain mem m zs"
    by (cases rule: level0_chain.cases) auto
  from m level0_step.hyps(1) have "m = n" by simp
  with z level0_step.IH have "xs = zs" by simp
  with ys show ?case by simp
qed

lemma Insert_all_keys:
  fixes sl :: "('k, 'r) SkipList"
  assumes ok: "comparator_ok compare"
  shows "skiplist_inv compare sl chain \<Longrightarrow>
     \<forall>k \<in> set ks. \<forall>a \<in> set chain. compare k (key (arena sl ! a)) \<noteq> 0 \<Longrightarrow>
     sorted_wrt (\<lambda>a b. compare a b \<noteq> 0) ks \<Longrightarrow>
     \<exists>sl' chain'. Insert_all ndebug OneIn compare sl ks = Some (Inr sl')
       \<and> skiplist_inv compare sl' chain'
       \<and> length chain' = length chain + length ks
       \<and> set (map (\<lambda>a. key (arena sl' ! a)) chain')
            = set (map (\<lambda>a. key (arena sl ! a)) chain) \<union> set ks
       \<and> (\<forall>q. length (filter (\<lambda>a. compare q (key (arena sl' ! a)) = 0) chain')
              = length (filter (\<lambda>a. compare q (key (arena sl ! a)) = 0) chain)
                + length (filter (\<lambda>k. compare q k = 0) ks))"
proof (induction ks arbitrary: sl chain)
  case Nil
  then show ?case by auto
next
  case (Cons k ks)
  let ?before = "takeWhile (key_less compare (arena sl) k) chain"
  let ?after = "dropWhile (key_less compare (arena sl) k) chain"
  let ?chain1 = "?before @ length (arena sl) # ?after"
  have nodup: "\<forall>a \<in> set chain. compare k (key (arena sl ! a)) \<noteq> 0" using Cons.prems(2) by simp
  from Insert_preserves_inv [OF ok Cons.prems(1) nodup, of ndebug OneIn] obtain sl1 where
    i: "Insert ndebug OneIn compare sl k = Some (Inr sl1)"
    and inv1: "skiplist_inv compare sl1 ?chain1"
    and kn: "key (arena sl1 ! length (arena sl)) = k"
    and kc: "\<forall>a \<in> set chain. key (arena sl1 ! a) = key (arena sl ! a)"
    by (elim exE conjE)
  have sub: "set ?before \<subseteq> set chain" "set ?after \<subseteq> set chain"
    by (auto dest: set_takeWhileD set_dropWhileD)
  have fresh1: "\<forall>k' \<in> set ks. \<forall>a \<in> set ?chain1. compare k' (key (arena sl1 ! a)) \<noteq> 0"
  proof (intro ballI)
    fix k' a assume k': "k' \<in> set ks" and a: "a \<in> set ?chain1"
    show "compare k' (key (arena sl1 ! a)) \<noteq> 0"
    proof (cases "a = length (arena sl)")
      case True
      from Cons.prems(3) k' have "compare k k' \<noteq> 0" by simp
      then have "compare k' k \<noteq> 0" using comparator_eq_sym [OF ok, of k k'] by simp
      with True kn show ?thesis by simp
    next
      case False
      with a sub have ac: "a \<in> set chain" by auto
      with Cons.prems(2) k' have "compare k' (key (arena sl ! a)) \<noteq> 0" by simp
      with kc ac show ?thesis by simp
    qed
  qed
  have d: "sorted_wrt (\<lambda>a b. compare a b \<noteq> 0) ks" using Cons.prems(3) by simp
  from Cons.IH [OF inv1 fresh1 d] obtain sl' chain' where
    r: "Insert_all ndebug OneIn compare sl1 ks = Some (Inr sl')"
    and inv': "skiplist_inv compare sl' chain'"
    and len: "length chain' = length ?chain1 + length ks"
    and ks: "set (map (\<lambda>a. key (arena sl' ! a)) chain')
            = set (map (\<lambda>a. key (arena sl1 ! a)) ?chain1) \<union> set ks"
    and cnt: "\<forall>q. length (filter (\<lambda>a. compare q (key (arena sl' ! a)) = 0) chain')
              = length (filter (\<lambda>a. compare q (key (arena sl1 ! a)) = 0) ?chain1)
                + length (filter (\<lambda>k. compare q k = 0) ks)"
    by (elim exE conjE)
  have mb: "map (\<lambda>a. key (arena sl1 ! a)) ?before = map (\<lambda>a. key (arena sl ! a)) ?before"
    by (rule map_cong [OF refl]) (use sub kc in auto)
  have ma: "map (\<lambda>a. key (arena sl1 ! a)) ?after = map (\<lambda>a. key (arena sl ! a)) ?after"
    by (rule map_cong [OF refl]) (use sub kc in auto)
  have "map (\<lambda>a. key (arena sl ! a)) chain
      = map (\<lambda>a. key (arena sl ! a)) ?before @ map (\<lambda>a. key (arena sl ! a)) ?after"
    unfolding map_append [symmetric] by simp
  then have k1: "set (map (\<lambda>a. key (arena sl1 ! a)) ?chain1)
      = set (map (\<lambda>a. key (arena sl ! a)) chain) \<union> {k}"
    unfolding map_append list.map mb ma kn by auto
  have "length chain = length (?before @ ?after)" by (simp only: takeWhile_dropWhile_id)
  then have l1: "length ?chain1 = Suc (length chain)" by (simp only: length_append list.size)
  have c1: "length (filter (\<lambda>a. compare q (key (arena sl1 ! a)) = 0) ?chain1)
      = length (filter (\<lambda>a. compare q (key (arena sl ! a)) = 0) chain)
        + length (filter (\<lambda>k. compare q k = 0) [k])" for q
  proof -
    have b: "filter (\<lambda>a. compare q (key (arena sl1 ! a)) = 0) ?before
        = filter (\<lambda>a. compare q (key (arena sl ! a)) = 0) ?before"
      by (rule filter_cong) (use sub kc in auto)
    have a: "filter (\<lambda>a. compare q (key (arena sl1 ! a)) = 0) ?after
        = filter (\<lambda>a. compare q (key (arena sl ! a)) = 0) ?after"
      by (rule filter_cong) (use sub kc in auto)
    have "length (filter (\<lambda>a. compare q (key (arena sl ! a)) = 0) chain)
        = length (filter (\<lambda>a. compare q (key (arena sl ! a)) = 0) (?before @ ?after))"
      by simp
    then show ?thesis unfolding filter_append filter.simps a b using kn by simp
  qed
  have 1: "Insert_all ndebug OneIn compare sl (k # ks) = Some (Inr sl')" using i r by simp
  have 2: "length chain' = length chain + length (k # ks)" unfolding len l1 by simp
  have 3: "set (map (\<lambda>a. key (arena sl' ! a)) chain')
            = set (map (\<lambda>a. key (arena sl ! a)) chain) \<union> set (k # ks)"
    unfolding ks k1 by auto
  have 4: "\<forall>q. length (filter (\<lambda>a. compare q (key (arena sl' ! a)) = 0) chain')
              = length (filter (\<lambda>a. compare q (key (arena sl ! a)) = 0) chain)
                + length (filter (\<lambda>k. compare q k = 0) (k # ks))"
    using cnt c1 by simp
  show ?case
    by (intro exI [of _ sl'] exI [of _ chain'] conjI 1 inv' 2 3 4)
qed

lemma distinct_keys_count:
  assumes ok: "comparator_ok compare"
  shows "sorted_wrt (\<lambda>a b. compare a b \<noteq> 0) ks \<Longrightarrow> k \<in> set ks \<Longrightarrow>
     length (filter (\<lambda>k'. compare k k' = 0) ks) = 1"
proof (induction ks)
  case Nil
  then show ?case by simp
next
  case (Cons x xs)
  show ?case
  proof (cases "k = x")
    case True
    have "\<forall>y \<in> set xs. compare k y \<noteq> 0" using Cons.prems(1) True by simp
    then have "filter (\<lambda>k'. compare k k' = 0) xs = []" by (simp add: filter_empty_conv)
    with True comparator_refl [OF ok, of x] show ?thesis by simp
  next
    case False
    with Cons.prems(2) have kx: "k \<in> set xs" by simp
    with Cons.prems(1) have "compare x k \<noteq> 0" by simp
    then have "compare k x \<noteq> 0" using comparator_eq_sym [OF ok, of x k] by simp
    moreover have "length (filter (\<lambda>k'. compare k k' = 0) xs) = 1"
      using Cons.IH kx Cons.prems(1) by simp
    ultimately show ?thesis by simp
  qed
qed

lemma nodes_with_key_count:
  assumes "skiplist_shape sl chain"
  shows "length (nodes_with_key compare sl k)
     = length (filter (\<lambda>a. compare k (key (arena sl ! a)) = 0) chain)"
proof -
  let ?P = "\<lambda>a. compare k (key (arena sl ! a)) = 0"
  have s: "set (head sl # chain) = {..<length (arena sl)}" and d: "distinct (head sl # chain)"
    using assms by (simp_all add: skiplist_shape_def)
  let ?xs = "filter ?P (filter (\<lambda>a. a \<noteq> head sl) [0..<length (arena sl)])"
  let ?ys = "filter ?P chain"
  have "set (filter (\<lambda>a. a \<noteq> head sl) [0..<length (arena sl)]) = set chain"
    using s d by auto
  then have "set ?xs = set ?ys" by (simp only: set_filter)
  moreover have "distinct ?xs" by simp
  moreover have "distinct ?ys" using d by simp
  ultimately have "length ?xs = length ?ys" by (metis distinct_card)
  then show ?thesis by (simp add: nodes_with_key_def Equal_def conj_commute)
qed

text \<open>
  C3: start from a freshly constructed list and insert keys that are pairwise distinct
  under the comparator. The construction and every \<open>Insert\<close> return, and after each
  \<open>Insert\<close> (that is, after the first \<open>n\<close> of them, for every \<open>n\<close>) the level-0 chain from
  the head is strictly increasing under the comparator, it has one node for each call,
  the keys of its nodes are the keys inserted so far, and for every key inserted so far
  exactly one node of the chain, which is also the only node other than the head in all
  of the memory, has a key that compares equal to it.
\<close>

theorem Insert_sorted_unique:
  fixes Random :: "int \<Rightarrow> 'r" and ks :: "'k list"
  assumes ok: "comparator_ok compare"
    and dist: "\<forall>i j. i < j \<and> j < length ks \<longrightarrow> compare (ks ! i) (ks ! j) \<noteq> 0"
    and n: "n \<le> length ks"
  shows "\<exists>sl0 sl chain. SkipList_ctor Random k0 = Inr sl0
       \<and> Insert_all ndebug OneIn compare sl0 (take n ks) = Some (Inr sl)
       \<and> level0_chain (arena sl) (Some (head sl)) (head sl # chain)
       \<and> sorted_wrt (\<lambda>a b. compare (key (arena sl ! a)) (key (arena sl ! b)) < 0) chain
       \<and> length chain = n
       \<and> set (map (\<lambda>a. key (arena sl ! a)) chain) = set (take n ks)
       \<and> (\<forall>k \<in> set (take n ks).
             length (filter (\<lambda>a. compare k (key (arena sl ! a)) = 0) chain) = 1)
       \<and> (\<forall>k \<in> set (take n ks). length (nodes_with_key compare sl k) = 1)"
proof -
  from SkipList_ctor_inv [of Random k0 compare] obtain sl0 :: "('k, 'r) SkipList" where
    c: "SkipList_ctor Random k0 = Inr sl0" and inv0: "skiplist_inv compare sl0 []"
    by (elim exE conjE)
  have "sorted_wrt (\<lambda>a b. compare a b \<noteq> 0) ks"
    using dist by (simp add: sorted_wrt_iff_nth_less)
  then have d: "sorted_wrt (\<lambda>a b. compare a b \<noteq> 0) (take n ks)"
    by (rule sorted_wrt_take)
  have fresh: "\<forall>k \<in> set (take n ks). \<forall>a \<in> set []. compare k (key (arena sl0 ! a)) \<noteq> 0"
    by simp
  from Insert_all_keys [OF ok inv0 fresh d, of ndebug OneIn] obtain sl chain where
    r: "Insert_all ndebug OneIn compare sl0 (take n ks) = Some (Inr sl)"
    and inv: "skiplist_inv compare sl chain"
    and len: "length chain = length ([] :: addr list) + length (take n ks)"
    and keys: "set (map (\<lambda>a. key (arena sl ! a)) chain)
            = set (map (\<lambda>a. key (arena sl0 ! a)) []) \<union> set (take n ks)"
    and cnt: "\<forall>q. length (filter (\<lambda>a. compare q (key (arena sl ! a)) = 0) chain)
              = length (filter (\<lambda>a. compare q (key (arena sl0 ! a)) = 0) [])
                + length (filter (\<lambda>k. compare q k = 0) (take n ks))"
    by (elim exE conjE)
  have shape: "skiplist_shape sl chain"
    and srt: "sorted_wrt (\<lambda>a b. compare (key (arena sl ! a)) (key (arena sl ! b)) < 0) chain"
    using inv by (simp_all add: skiplist_inv_def keys_increasing_def)
  have len': "length chain = n" using len n by simp
  have keys': "set (map (\<lambda>a. key (arena sl ! a)) chain) = set (take n ks)"
    using keys by simp
  have one: "length (filter (\<lambda>a. compare k (key (arena sl ! a)) = 0) chain) = 1"
    if "k \<in> set (take n ks)" for k
    using cnt distinct_keys_count [OF ok d that] by simp
  then have one': "\<forall>k \<in> set (take n ks).
      length (filter (\<lambda>a. compare k (key (arena sl ! a)) = 0) chain) = 1"
    by blast
  have all: "\<forall>k \<in> set (take n ks). length (nodes_with_key compare sl k) = 1"
    using nodes_with_key_count [OF shape, of compare] one by simp
  show ?thesis
    by (intro exI [of _ sl0] exI [of _ sl] exI [of _ chain] conjI c r
        skiplist_inv_level0_chain [OF inv] srt len' keys' one' all)
qed

theorem Insert_sorted_unique_witness:
  "\<exists>sl0. SkipList_ctor (\<lambda>seed::int. 2::nat) (0::int) = Inr sl0
     \<and> Insert_all False counter_OneIn int_cmp sl0 (take 4 [5, 1, 9, 3]) = Some (Inr example_list)
     \<and> level0_chain (arena example_list) (Some 0) [0, 2, 4, 1, 3]
     \<and> map (\<lambda>a. key (arena example_list ! a)) [2, 4, 1, 3] = [1, 3, 5, 9]
     \<and> map (\<lambda>k. length (filter (\<lambda>a. int_cmp k (key (arena example_list ! a)) = 0)
                            [2, 4, 1, 3])) [5, 1, 9, 3] = [1, 1, 1, 1]
     \<and> map (\<lambda>k. length (nodes_with_key int_cmp example_list k)) [5, 1, 9, 3] = [1, 1, 1, 1]"
proof -
  have dist: "\<forall>i j. i < j \<and> j < length [5, 1, 9, 3 :: int]
      \<longrightarrow> int_cmp ([5, 1, 9, 3] ! i) ([5, 1, 9, 3] ! j) \<noteq> 0"
    by (simp add: int_cmp_def nth_Cons' less_Suc_eq)
  have n: "(4::nat) \<le> length [5, 1, 9, 3 :: int]" by simp
  from Insert_sorted_unique [OF comparator_ok_int_cmp dist n,
      of "\<lambda>seed::int. 2::nat" 0 False counter_OneIn]
  obtain sl0 sl chain where c: "SkipList_ctor (\<lambda>seed::int. 2::nat) (0::int) = Inr sl0"
    and r: "Insert_all False counter_OneIn int_cmp sl0 (take 4 [5, 1, 9, 3]) = Some (Inr sl)"
    and l: "level0_chain (arena sl) (Some (head sl)) (head sl # chain)"
    and o: "\<forall>k \<in> set (take 4 [5, 1, 9, 3]).
             length (filter (\<lambda>a. int_cmp k (key (arena sl ! a)) = 0) chain) = 1"
    and u: "\<forall>k \<in> set (take 4 [5, 1, 9, 3]). length (nodes_with_key int_cmp sl k) = 1"
    by (elim exE conjE)
  have sl: "sl = example_list" using example_list_built c r by simp
  have ch: "level0_chain (arena example_list) (Some 0) [0, 2, 4, 1, 3]"
    using skiplist_inv_level0_chain [OF example_list_inv] by (simp add: example_list_def)
  have "level0_chain (arena example_list) (Some 0) (0 # chain)"
    using l unfolding sl by (simp add: example_list_def)
  from level0_chain_unique [OF this ch] have chain: "chain = [2, 4, 1, 3]" by simp
  have keys: "map (\<lambda>a. key (arena example_list ! a)) [2, 4, 1, 3] = [1, 3, 5, 9]"
    by (simp add: example_list_def)
  from o have cnt0: "map (\<lambda>k. length (filter (\<lambda>a. int_cmp k (key (arena example_list ! a)) = 0)
                            [2, 4, 1, 3])) [5, 1, 9, 3] = [1, 1, 1, 1]"
    unfolding sl chain by simp
  from u have cnt: "map (\<lambda>k. length (nodes_with_key int_cmp example_list k)) [5, 1, 9, 3]
      = [1, 1, 1, 1]"
    unfolding sl by simp
  have r': "Insert_all False counter_OneIn int_cmp sl0 (take 4 [5, 1, 9, 3])
      = Some (Inr example_list)"
    using r unfolding sl .
  show ?thesis
    by (rule exI [of _ sl0]) (intro conjI c r' ch keys cnt0 cnt)
qed

text \<open>
  C4: on a list that satisfies the invariant, \<open>Insert\<close> of a key that is not present
  returns, and the atomic stores it performs are, after the relaxed store of the height
  hint when the new height exceeds it, exactly these, level by level from 0 up to the
  chosen height minus 1: first a relaxed store of the predecessor's old successor at that
  level into the new node's own slot, then a release store of the new node into the
  predecessor's slot. The predecessor at a level is the last node with a slot at that
  level among the head and the nodes with smaller keys. Afterwards the new node is in the
  level-0 chain, between the nodes with smaller keys and the others.
\<close>

theorem Insert_splice_order:
  fixes sl :: "('k, 'r) SkipList"
  assumes ok: "comparator_ok compare" and inv: "skiplist_inv compare sl chain"
    and nodup: "\<forall>a \<in> set chain. compare k (key (arena sl ! a)) \<noteq> 0"
  shows "\<exists>sl' h r'. RandomHeight OneIn (rnd sl) = Inr (h, r')
     \<and> Insert ndebug OneIn compare sl k = Some (Inr sl')
     \<and> key (arena sl' ! length (arena sl)) = k
     \<and> height (arena sl') (length (arena sl)) = nat h
     \<and> stores sl' = stores sl
         @ (if h > max_height sl then [MaxHeightStore h memory_order_relaxed] else [])
         @ concat (map (\<lambda>l. [NextStore (length (arena sl)) l
                                (link (arena sl)
                                   (predecessor compare (arena sl) k (head sl) chain l) l)
                                memory_order_relaxed,
                              NextStore (predecessor compare (arena sl) k (head sl) chain l) l
                                (Some (length (arena sl))) memory_order_release])
                     [0..<nat h])
     \<and> level0_chain (arena sl') (Some (head sl))
           (head sl # takeWhile (key_less compare (arena sl) k) chain
              @ length (arena sl) # dropWhile (key_less compare (arena sl) k) chain)"
proof -
  let ?mem = "arena sl"
  let ?before = "takeWhile (key_less compare ?mem k) chain"
  let ?after = "dropWhile (key_less compare ?mem k) chain"
  let ?n = "length ?mem"
  let ?pred = "predecessor compare ?mem k (head sl) chain"
  have chk: "ndebug \<or> (\<forall>a \<in> set chain. compare k (key (arena sl ! a)) \<noteq> 0)"
    using nodup by simp
  from Insert_effect [OF ok inv chk, of OneIn] obtain sl' h r' where
    rh: "RandomHeight OneIn (rnd sl) = Inr (h, r')" and h: "h \<le> kMaxHeight"
    and i: "Insert ndebug OneIn compare sl k = Some (Inr sl')"
    and shape: "skiplist_shape sl' (?before @ ?n # ?after)"
    and kn: "key (arena sl' ! ?n) = k"
    and hn: "height (arena sl') ?n = nat h"
    and hd: "head sl' = head sl"
    and st: "stores sl' = stores sl
         @ (if h > max_height sl then [MaxHeightStore h memory_order_relaxed] else [])
         @ concat (map (\<lambda>l. [NextStore ?n l (List.find (\<lambda>a. l < height ?mem a) ?after)
                                memory_order_relaxed,
                              NextStore (?pred l) l (Some ?n) memory_order_release])
                     [0..<nat h])"
    by (elim exE conjE)
  have lo: "links_ok ?mem ((head sl # ?before) @ ?after)"
    and hh: "height ?mem (head sl) = nat kMaxHeight"
    using inv by (simp_all add: skiplist_inv_def skiplist_shape_def)
  have succ: "List.find (\<lambda>a. l < height ?mem a) ?after = link ?mem (?pred l) l"
    if "l \<in> set [0..<nat h]" for l
  proof -
    from that h have "l < nat kMaxHeight" by simp
    then have "filter (\<lambda>a. l < height ?mem a) (head sl # ?before) \<noteq> []" using hh by simp
    from last_filter_link [OF lo this] show ?thesis by (simp add: predecessor_def)
  qed
  have eq: "map (\<lambda>l. [NextStore ?n l (List.find (\<lambda>a. l < height ?mem a) ?after)
                      memory_order_relaxed,
                    NextStore (?pred l) l (Some ?n) memory_order_release]) [0..<nat h]
      = map (\<lambda>l. [NextStore ?n l (link ?mem (?pred l) l) memory_order_relaxed,
                    NextStore (?pred l) l (Some ?n) memory_order_release]) [0..<nat h]"
    by (rule map_cong [OF refl]) (simp only: succ)
  have st': "stores sl' = stores sl
         @ (if h > max_height sl then [MaxHeightStore h memory_order_relaxed] else [])
         @ concat (map (\<lambda>l. [NextStore ?n l (link ?mem (?pred l) l) memory_order_relaxed,
                              NextStore (?pred l) l (Some ?n) memory_order_release])
                     [0..<nat h])"
    unfolding eq [symmetric] by (rule st)
  have ch: "level0_chain (arena sl') (Some (head sl)) (head sl # ?before @ ?n # ?after)"
    using skiplist_shape_level0_chain [OF shape] unfolding hd .
  show ?thesis
    by (intro exI [of _ sl'] exI [of _ h] exI [of _ r'] conjI rh i kn hn st' ch)
qed


theorem Insert_splice_order_witness:
  "\<exists>sl'. Insert False counter_OneIn int_cmp example_list 4 = Some (Inr sl')
     \<and> key (arena sl' ! 5) = 4
     \<and> stores sl' = stores example_list
         @ [NextStore 5 0 (Some 1) memory_order_relaxed, NextStore 4 0 (Some 5) memory_order_release,
            NextStore 5 1 None memory_order_relaxed, NextStore 2 1 (Some 5) memory_order_release]
     \<and> level0_chain (arena sl') (Some 0) [0, 2, 4, 5, 1, 3]"
proof -
  have nodup: "\<forall>a \<in> set [2, 4, 1, 3]. int_cmp 4 (key (arena example_list ! a)) \<noteq> 0"
    by (simp add: example_list_def int_cmp_def)
  have rh: "RandomHeight counter_OneIn (rnd example_list) = Inr (2, 9)" by code_simp
  have p0: "predecessor int_cmp (arena example_list) 4 (head example_list) [2, 4, 1, 3] 0 = 4"
    and p1: "predecessor int_cmp (arena example_list) 4 (head example_list) [2, 4, 1, 3] (Suc 0) = 2"
    by code_simp+
  have l0: "link (arena example_list) 4 0 = Some 1"
    and l1: "link (arena example_list) 2 (Suc 0) = None"
    by code_simp+
  have tw: "takeWhile (key_less int_cmp (arena example_list) 4) [2, 4, 1, 3] = [2, 4]"
    and dw: "dropWhile (key_less int_cmp (arena example_list) 4) [2, 4, 1, 3] = [1, 3]"
    by code_simp+
  have up: "[0..<nat 2] = [0, Suc 0]" by (simp add: upt_rec)
  from Insert_splice_order [OF comparator_ok_int_cmp example_list_inv nodup,
      where ndebug = False and OneIn = counter_OneIn]
  obtain sl' h r' where "RandomHeight counter_OneIn (rnd example_list) = Inr (h, r')"
    and i: "Insert False counter_OneIn int_cmp example_list 4 = Some (Inr sl')"
    and k: "key (arena sl' ! length (arena example_list)) = 4"
    and st: "stores sl' = stores example_list
         @ (if h > max_height example_list then [MaxHeightStore h memory_order_relaxed] else [])
         @ concat (map (\<lambda>l. [NextStore (length (arena example_list)) l
                                (link (arena example_list)
                                   (predecessor int_cmp (arena example_list) 4
                                      (head example_list) [2, 4, 1, 3] l) l)
                                memory_order_relaxed,
                              NextStore (predecessor int_cmp (arena example_list) 4
                                      (head example_list) [2, 4, 1, 3] l) l
                                (Some (length (arena example_list))) memory_order_release])
                     [0..<nat h])"
    and ch: "level0_chain (arena sl') (Some (head example_list))
           (head example_list # takeWhile (key_less int_cmp (arena example_list) 4) [2, 4, 1, 3]
              @ length (arena example_list)
                # dropWhile (key_less int_cmp (arena example_list) 4) [2, 4, 1, 3])"
    by (elim exE conjE)
  with rh have h: "h = 2" by simp
  have len: "length (arena example_list) = 5" and mh: "max_height example_list = 2"
    by (simp_all add: example_list_def)
  have k': "key (arena sl' ! 5) = 4" using k unfolding len .
  have st': "stores sl' = stores example_list
         @ [NextStore 5 0 (Some 1) memory_order_relaxed, NextStore 4 0 (Some 5) memory_order_release,
            NextStore 5 1 None memory_order_relaxed, NextStore 2 1 (Some 5) memory_order_release]"
    using st unfolding h up len mh
    by (simp add: p0 [simplified] p1 [simplified] l0 [simplified] l1 [simplified])
  have hd: "head example_list = 0" by (simp add: example_list_def)
  have ch': "level0_chain (arena sl') (Some 0) [0, 2, 4, 5, 1, 3]"
    using ch unfolding tw dw len hd by simp
  show ?thesis
    by (rule exI [of _ sl']) (intro conjI i k' st' ch')
qed

lemma find_dropWhile_hd:
  "List.find (\<lambda>a. \<not> P a) xs = Some x \<Longrightarrow> \<exists>rest. dropWhile P xs = x # rest"
  by (induction xs) (auto split: if_splits)

text \<open>
  C9: on a list that satisfies the invariant, \<open>Insert\<close> of a key that is already present
  violates the precondition. Compiled with assertions, the call ends in the failing
  assertion. Compiled with \<open>NDEBUG\<close>, nothing checks the key: the call returns normally, no
  error is reported, and afterwards the level-0 chain holds two different nodes whose keys
  compare equal to the inserted key, so it is no longer strictly increasing.
\<close>

theorem Insert_duplicate_key:
  fixes sl :: "('k, 'r) SkipList"
  assumes ok: "comparator_ok compare" and inv: "skiplist_inv compare sl chain"
    and dup: "\<exists>a \<in> set chain. compare k (key (arena sl ! a)) = 0"
  shows "Insert False OneIn compare sl k = Some (Inl AssertionFailed)
     \<and> (\<exists>sl' chain' a b. Insert True OneIn compare sl k = Some (Inr sl')
          \<and> level0_chain (arena sl') (Some (head sl')) (head sl' # chain')
          \<and> a \<in> set chain' \<and> b \<in> set chain' \<and> a \<noteq> b
          \<and> compare k (key (arena sl' ! a)) = 0 \<and> compare k (key (arena sl' ! b)) = 0
          \<and> \<not> sorted_wrt (\<lambda>a b. compare (key (arena sl' ! a)) (key (arena sl' ! b)) < 0) chain')"
proof -
  let ?mem = "arena sl"
  let ?n = "length ?mem"
  let ?before = "takeWhile (key_less compare ?mem k) chain"
  let ?after = "dropWhile (key_less compare ?mem k) chain"
  have srt: "keys_increasing compare ?mem chain" using inv by (simp add: skiplist_inv_def)
  have s: "set (head sl # chain) = {..<?n}"
    using inv by (simp add: skiplist_inv_def skiplist_shape_def)
  from found_equal [OF ok srt dup] obtain x where
    f: "List.find (\<lambda>a. compare (key (?mem ! a)) k \<ge> 0) chain = Some x"
    and xc: "x \<in> set chain" and xk: "compare k (key (?mem ! x)) = 0"
    by (elim exE conjE)
  have xn: "x < ?n" using xc s by auto
  \<comment> \<open>with assertions\<close>
  from Insert_search [OF ok inv, of k] obtain p where
    r: "FindGreaterOrEqual compare sl k (Some (replicate (nat kMaxHeight) None))
        = Some (Inr (List.find (\<lambda>a. compare (key (?mem ! a)) k \<ge> 0) chain, Some p))"
    by (elim exE conjE)
  have "no_duplicate compare ?mem k (Some x) = Inr False"
    using xn xk by (simp add: no_duplicate_def Equal_def)
  then have debug: "Insert False OneIn compare sl k = Some (Inl AssertionFailed)"
    unfolding Insert_def r f by simp
  \<comment> \<open>without\<close>
  have chk: "True \<or> (\<forall>a \<in> set chain. compare k (key (?mem ! a)) \<noteq> 0)" by simp
  from Insert_effect [OF ok inv chk, where OneIn = OneIn] obtain sl' where
    i: "Insert True OneIn compare sl k = Some (Inr sl')"
    and shape: "skiplist_shape sl' (?before @ ?n # ?after)"
    and kn: "key (arena sl' ! ?n) = k"
    and keys: "\<forall>a < ?n. key (arena sl' ! a) = key (?mem ! a)
           \<and> height (arena sl') a = height ?mem a"
    by (elim exE conjE)
  have "(\<lambda>a. compare (key (?mem ! a)) k \<ge> 0) = (\<lambda>a. \<not> key_less compare ?mem k a)"
    by (auto simp: key_less_def)
  with f have "List.find (\<lambda>a. \<not> key_less compare ?mem k a) chain = Some x" by simp
  from find_dropWhile_hd [OF this] obtain rest where af: "?after = x # rest" ..
  have ch: "level0_chain (arena sl') (Some (head sl')) (head sl' # ?before @ ?n # ?after)"
    using skiplist_shape_level0_chain [OF shape] .
  have a: "?n \<in> set (?before @ ?n # ?after)" by simp
  have b: "x \<in> set (?before @ ?n # ?after)" unfolding af by simp
  have ne: "?n \<noteq> x" using xn by simp
  have ka: "compare k (key (arena sl' ! ?n)) = 0" using kn comparator_refl [OF ok] by simp
  have kx: "key (arena sl' ! x) = key (?mem ! x)" using keys xn by simp
  have kb: "compare k (key (arena sl' ! x)) = 0" using xk kx by simp
  have "\<not> compare (key (arena sl' ! ?n)) (key (arena sl' ! x)) < 0" using kb kn by simp
  then have ns: "\<not> sorted_wrt (\<lambda>a b. compare (key (arena sl' ! a)) (key (arena sl' ! b)) < 0)
      (?before @ ?n # ?after)"
    unfolding af by (simp add: sorted_wrt_append)
  have "\<exists>sl' chain' a b. Insert True OneIn compare sl k = Some (Inr sl')
          \<and> level0_chain (arena sl') (Some (head sl')) (head sl' # chain')
          \<and> a \<in> set chain' \<and> b \<in> set chain' \<and> a \<noteq> b
          \<and> compare k (key (arena sl' ! a)) = 0 \<and> compare k (key (arena sl' ! b)) = 0
          \<and> \<not> sorted_wrt (\<lambda>a b. compare (key (arena sl' ! a)) (key (arena sl' ! b)) < 0) chain'"
    by (intro exI [of _ sl'] exI [of _ "?before @ ?n # ?after"] exI [of _ ?n] exI [of _ x]
        conjI i ch a b ne ka kb ns)
  with debug show ?thesis by (rule conjI)
qed

theorem Insert_duplicate_key_witness:
  "Insert False counter_OneIn int_cmp example_list 5 = Some (Inl AssertionFailed)
   \<and> (case Insert True counter_OneIn int_cmp example_list 5 of
        Some (Inr sl') \<Rightarrow>
          length (arena sl') = 6 \<and> key (arena sl' ! 1) = 5 \<and> key (arena sl' ! 5) = 5
          \<and> nexts (arena sl' ! 4) = [Some 5] \<and> nexts (arena sl' ! 5) = [Some 1, None]
      | _ \<Rightarrow> False)"
proof -
  have dup: "\<exists>a \<in> set [2, 4, 1, 3]. int_cmp 5 (key (arena example_list ! a)) = 0"
    by (simp add: example_list_def int_cmp_def)
  have d: "Insert False counter_OneIn int_cmp example_list 5 = Some (Inl AssertionFailed)"
    using Insert_duplicate_key [OF comparator_ok_int_cmp example_list_inv dup,
        where OneIn = counter_OneIn]
    by (rule conjunct1)
  have "(case Insert True counter_OneIn int_cmp example_list 5 of
        Some (Inr sl') \<Rightarrow>
          length (arena sl') = 6 \<and> key (arena sl' ! 1) = 5 \<and> key (arena sl' ! 5) = 5
          \<and> nexts (arena sl' ! 4) = [Some 5] \<and> nexts (arena sl' ! 5) = [Some 1, None]
      | _ \<Rightarrow> False)"
    by code_simp
  with d show ?thesis by (rule conjI)
qed

section \<open>Properties of the arena\<close>

lemma arena_inv_step:
  assumes inv: "arena_inv a rs"
    and blk: "block_bytes a \<subseteq> block_bytes a'"
    and cur: "cursor_bytes a' \<subseteq> block_bytes a'"
    and r1: "bytes_of r \<subseteq> block_bytes a'"
    and r2: "bytes_of r \<inter> cursor_bytes a' = {}"
    and old1: "\<forall>s \<in> set rs. bytes_of s \<inter> cursor_bytes a' = {}"
    and old2: "\<forall>s \<in> set rs. bytes_of s \<inter> bytes_of r = {}"
  shows "arena_inv a' (rs @ [r])"
proof -
  have "\<forall>s \<in> set rs. bytes_of s \<subseteq> block_bytes a'"
    using inv blk unfolding arena_inv_def by blast
  moreover have "sorted_wrt (\<lambda>r s. bytes_of r \<inter> bytes_of s = {}) (rs @ [r])"
    using inv old2 unfolding arena_inv_def by (simp add: sorted_wrt_append)
  ultimately show ?thesis
    unfolding arena_inv_def using cur r1 r2 old1 by simp
qed

lemma arena_inv_in_cursor:
  assumes inv: "arena_inv a rs"
    and hp: "heap a' = heap a"
    and r: "bytes_of r \<subseteq> cursor_bytes a"
    and c: "cursor_bytes a' \<subseteq> cursor_bytes a"
    and d: "bytes_of r \<inter> cursor_bytes a' = {}"
  shows "arena_inv a' (rs @ [r])"
proof (rule arena_inv_step [OF inv])
  have b: "block_bytes a' = block_bytes a" using hp by (simp add: block_bytes_def)
  have ca: "cursor_bytes a \<subseteq> block_bytes a" using inv by (simp add: arena_inv_def)
  show "block_bytes a \<subseteq> block_bytes a'" using b by simp
  show "cursor_bytes a' \<subseteq> block_bytes a'" using b c ca by blast
  show "bytes_of r \<subseteq> block_bytes a'" using b r ca by blast
  show "bytes_of r \<inter> cursor_bytes a' = {}" by (rule d)
  have o: "\<forall>s \<in> set rs. bytes_of s \<inter> cursor_bytes a = {}" using inv by (simp add: arena_inv_def)
  show "\<forall>s \<in> set rs. bytes_of s \<inter> cursor_bytes a' = {}" using o c by blast
  show "\<forall>s \<in> set rs. bytes_of s \<inter> bytes_of r = {}" using o r by blast
qed

lemma AllocateFallback_inv:
  assumes fresh: "fresh_allocator new_array"
    and inv: "arena_inv a rs"
    and res: "AllocateFallback new_array block_size a bytes = (p, a')"
  shows "arena_inv a' (rs @ [(p, bytes)])"
proof -
  let ?n = "if bytes > block_size div 4 then bytes else block_size"
  let ?p = "new_array (heap a) ?n"
  have p: "p = ?p" and hp: "heap a' = heap a @ [(?p, ?n)]"
    using res by (auto simp: AllocateFallback_def AllocateNewBlock_def Let_def split: if_splits)
  have b: "block_bytes a' = block_bytes a \<union> bytes_of (?p, ?n)"
    using hp by (auto simp: block_bytes_def)
  have new: "bytes_of (?p, ?n) \<inter> block_bytes a = {}"
    using fresh unfolding fresh_allocator_def block_bytes_def by blast
  have ca: "cursor_bytes a \<subseteq> block_bytes a"
    and o1: "\<forall>s \<in> set rs. bytes_of s \<subseteq> block_bytes a"
    using inv by (simp_all add: arena_inv_def)
  have rn: "bytes_of (p, bytes) \<subseteq> bytes_of (?p, ?n)"
    unfolding p by (auto simp: bytes_of_def)
  have cur: "cursor_bytes a' \<subseteq> block_bytes a' \<and> bytes_of (p, bytes) \<inter> cursor_bytes a' = {}
      \<and> (\<forall>s \<in> set rs. bytes_of s \<inter> cursor_bytes a' = {})"
  proof (cases "bytes > block_size div 4")
    case True
    then have "cursor_bytes a' = cursor_bytes a"
      using res by (auto simp: AllocateFallback_def AllocateNewBlock_def Let_def cursor_bytes_def)
    moreover have "\<forall>s \<in> set rs. bytes_of s \<inter> cursor_bytes a = {}"
      using inv by (simp add: arena_inv_def)
    ultimately show ?thesis using b ca new rn by auto
  next
    case False
    then have c: "cursor_bytes a' = bytes_of (?p + bytes, block_size - bytes)"
      using res by (auto simp: AllocateFallback_def AllocateNewBlock_def Let_def cursor_bytes_def)
    have le: "bytes \<le> block_size" using False by simp
    have "cursor_bytes a' \<subseteq> bytes_of (?p, ?n)"
      unfolding c using False le by (auto simp: bytes_of_def)
    moreover have "bytes_of (p, bytes) \<inter> cursor_bytes a' = {}"
      unfolding c p by (auto simp: bytes_of_def)
    ultimately show ?thesis using b new o1 by blast
  qed
  show ?thesis
  proof (rule arena_inv_step [OF inv])
    show "block_bytes a \<subseteq> block_bytes a'" using b by blast
    show "cursor_bytes a' \<subseteq> block_bytes a'" using cur by blast
    show "bytes_of (p, bytes) \<subseteq> block_bytes a'" using b rn by blast
    show "bytes_of (p, bytes) \<inter> cursor_bytes a' = {}" using cur by blast
    show "\<forall>s \<in> set rs. bytes_of s \<inter> cursor_bytes a' = {}" using cur by blast
    show "\<forall>s \<in> set rs. bytes_of s \<inter> bytes_of (p, bytes) = {}" using o1 rn new by blast
  qed
qed

lemma Allocate_inv:
  assumes fresh: "fresh_allocator new_array"
    and inv: "arena_inv a rs"
    and res: "Allocate (AllocateFallback new_array block_size) a bytes = (p, a')"
  shows "arena_inv a' (rs @ [(p, bytes)])"
proof (cases "bytes \<le> alloc_bytes_remaining a")
  case True
  with res have p: "p = alloc_ptr a"
    and a': "a' = a\<lparr>alloc_ptr := alloc_ptr a + bytes,
                    alloc_bytes_remaining := alloc_bytes_remaining a - bytes\<rparr>"
    by (auto simp: Allocate_def Let_def)
  show ?thesis
    by (rule arena_inv_in_cursor [OF inv])
      (use True in \<open>auto simp: p a' cursor_bytes_def bytes_of_def\<close>)
next
  case False
  with res have "AllocateFallback new_array block_size a bytes = (p, a')"
    by (simp add: Allocate_def)
  from AllocateFallback_inv [OF fresh inv this] show ?thesis .
qed

lemma AllocateAligned_inv:
  assumes fresh: "fresh_allocator new_array"
    and inv: "arena_inv a rs"
    and res: "AllocateAligned new_array block_size align a bytes = (p, a')"
  shows "arena_inv a' (rs @ [(p, bytes)])"
proof -
  define slop where
    "slop = (if alloc_ptr a mod align = 0 then 0 else align - alloc_ptr a mod align)"
  show ?thesis
  proof (cases "bytes + slop \<le> alloc_bytes_remaining a")
    case True
    with res have p: "p = alloc_ptr a + slop"
      and a': "a' = a\<lparr>alloc_ptr := alloc_ptr a + (bytes + slop),
                      alloc_bytes_remaining := alloc_bytes_remaining a - (bytes + slop)\<rparr>"
      by (auto simp: AllocateAligned_def Let_def slop_def)
    show ?thesis
      by (rule arena_inv_in_cursor [OF inv])
        (use True in \<open>auto simp: p a' cursor_bytes_def bytes_of_def\<close>)
  next
    case False
    with res have "AllocateFallback new_array block_size a bytes = (p, a')"
      by (simp add: AllocateAligned_def Let_def slop_def)
    from AllocateFallback_inv [OF fresh inv this] show ?thesis .
  qed
qed

lemma serve_inv:
  assumes fresh: "fresh_allocator new_array"
    and inv: "arena_inv a rs"
    and res: "serve new_array block_size align a q = (p, a')"
  shows "arena_inv a' (rs @ [(p, request_size q)])"
  using res Allocate_inv [OF fresh inv] AllocateAligned_inv [OF fresh inv]
  by (cases q) simp_all

lemma serve_all_inv:
  assumes fresh: "fresh_allocator new_array"
  shows "arena_inv a acc \<Longrightarrow> serve_all new_array block_size align a qs = (rs, a') \<Longrightarrow>
     arena_inv a' (acc @ rs)"
proof (induction qs arbitrary: a acc rs a')
  case Nil
  then show ?case by simp
next
  case (Cons q qs)
  obtain p a1 where s: "serve new_array block_size align a q = (p, a1)"
    by (cases "serve new_array block_size align a q")
  obtain rs1 a2 where r: "serve_all new_array block_size align a1 qs = (rs1, a2)"
    by (cases "serve_all new_array block_size align a1 qs")
  from Cons.prems(2) s r have rs: "rs = (p, request_size q) # rs1" and a': "a' = a2" by simp_all
  from serve_inv [OF fresh Cons.prems(1) s]
  have "arena_inv a1 (acc @ [(p, request_size q)])" .
  from Cons.IH [OF this r] show ?case unfolding rs a' by simp
qed


lemma serve_all_sizes:
  "serve_all new_array block_size align a qs = (rs, a') \<Longrightarrow> map snd rs = map request_size qs"
proof (induction qs arbitrary: a rs a')
  case Nil
  then show ?case by simp
next
  case (Cons q qs)
  obtain p a1 where s: "serve new_array block_size align a q = (p, a1)"
    by (cases "serve new_array block_size align a q")
  obtain rs1 a2 where r: "serve_all new_array block_size align a1 qs = (rs1, a2)"
    by (cases "serve_all new_array block_size align a1 qs")
  from Cons.prems s r have "rs = (p, request_size q) # rs1" by simp
  with Cons.IH [OF r] show ?case by simp
qed

lemma fold_max_le: "m \<le> fold (\<lambda>b m. max m (fst b + snd b)) h (m :: nat)"
proof (induction h arbitrary: m)
  case Nil
  show ?case by simp
next
  case (Cons b h)
  have "m \<le> max m (fst b + snd b)" by simp
  also have "\<dots> \<le> fold (\<lambda>b m. max m (fst b + snd b)) h (max m (fst b + snd b))" by (rule Cons.IH)
  finally show ?case by simp
qed

lemma fold_max_end:
  "b \<in> set h \<Longrightarrow> fst b + snd b \<le> fold (\<lambda>b m. max m (fst b + snd b)) h (m :: nat)"
proof (induction h arbitrary: m)
  case Nil
  then show ?case by simp
next
  case (Cons c h)
  show ?case
  proof (cases "b = c")
    case True
    have "fst b + snd b \<le> max m (fst b + snd b)" by simp
    also have "\<dots> \<le> fold (\<lambda>b m. max m (fst b + snd b)) h (max m (fst b + snd b))"
      by (rule fold_max_le)
    finally show ?thesis using True by simp
  next
    case False
    with Cons.prems have "b \<in> set h" by simp
    from Cons.IH [OF this] show ?thesis by simp
  qed
qed

lemma fresh_bump_allocator: "fresh_allocator bump_allocator"
proof (unfold fresh_allocator_def, intro allI ballI)
  fix h n b assume "b \<in> set (h :: (nat \<times> nat) list)"
  from fold_max_end [OF this, of 4096] have "fst b + snd b \<le> bump_allocator h n"
    by (simp add: bump_allocator_def)
  then show "bytes_of (bump_allocator h n, n) \<inter> bytes_of b = {}"
    by (auto simp: bytes_of_def)
qed

text \<open>
  C8: \<open>Allocate(bytes)\<close> returns the cursor and advances it by \<open>bytes\<close> when the current
  block has at least \<open>bytes\<close> left, and otherwise returns what the fallback path returns
  (for every fallback path). With the fallback path and \<open>AllocateAligned\<close> as the spec
  describes them and a system allocator that hands out fresh blocks, start from an arena
  whose cursor lies in its blocks and make any sequence of \<open>Allocate\<close> and
  \<open>AllocateAligned\<close> calls: every range returned has the size requested, and no two of the
  ranges returned share a byte.
\<close>

theorem Arena_Allocate_no_overlap:
  assumes fresh: "fresh_allocator new_array"
    and cur: "cursor_bytes a \<subseteq> block_bytes a"
    and run: "serve_all new_array block_size align a qs = (rs, a')"
  shows "Allocate fallback b bytes =
       (if bytes \<le> alloc_bytes_remaining b
        then (alloc_ptr b, b\<lparr>alloc_ptr := alloc_ptr b + bytes,
                              alloc_bytes_remaining := alloc_bytes_remaining b - bytes\<rparr>)
        else fallback b bytes)
     \<and> map snd rs = map request_size qs
     \<and> (\<forall>i j. i < j \<and> j < length rs \<longrightarrow> bytes_of (rs ! i) \<inter> bytes_of (rs ! j) = {})"
proof -
  have "arena_inv a []" using cur by (simp add: arena_inv_def)
  from serve_all_inv [OF fresh this run]
  have "sorted_wrt (\<lambda>r s. bytes_of r \<inter> bytes_of s = {}) rs" by (simp add: arena_inv_def)
  then have "\<forall>i j. i < j \<and> j < length rs \<longrightarrow> bytes_of (rs ! i) \<inter> bytes_of (rs ! j) = {}"
    by (simp add: sorted_wrt_iff_nth_less)
  moreover have "Allocate fallback b bytes =
       (if bytes \<le> alloc_bytes_remaining b
        then (alloc_ptr b, b\<lparr>alloc_ptr := alloc_ptr b + bytes,
                              alloc_bytes_remaining := alloc_bytes_remaining b - bytes\<rparr>)
        else fallback b bytes)"
    by (simp add: Allocate_def)
  ultimately show ?thesis using serve_all_sizes [OF run] by blast
qed

lemma example_requests:
  "fst (serve_all bump_allocator 4096 8 empty_arena
          [Alloc 10, AllocAligned 16, Alloc 2000, Alloc 5000, Alloc 3000])
     = [(4096, 10), (4112, 16), (4128, 2000), (8192, 5000), (13192, 3000)]"
  by (simp add: Allocate_def AllocateAligned_def AllocateFallback_def AllocateNewBlock_def
      empty_arena_def bump_allocator_def Let_def)

theorem Arena_Allocate_no_overlap_witness:
  "fst (serve_all bump_allocator 4096 8 empty_arena
          [Alloc 10, AllocAligned 16, Alloc 2000, Alloc 5000, Alloc 3000])
     = [(4096, 10), (4112, 16), (4128, 2000), (8192, 5000), (13192, 3000)]
   \<and> bytes_of (4096, 10) \<inter> bytes_of (4112, 16) = {}
   \<and> bytes_of (4128, 2000) \<inter> bytes_of (13192, 3000) = {}"
proof -
  let ?qs = "[Alloc 10, AllocAligned 16, Alloc 2000, Alloc 5000, Alloc 3000]"
  let ?rs = "[(4096, 10), (4112, 16), (4128, 2000), (8192, 5000), (13192, 3000)] :: (nat \<times> nat) list"
  obtain a' where run: "serve_all bump_allocator 4096 8 empty_arena ?qs = (?rs, a')"
    using example_requests by (cases "serve_all bump_allocator 4096 8 empty_arena ?qs") simp
  have cur: "cursor_bytes empty_arena \<subseteq> block_bytes empty_arena"
    by (simp add: cursor_bytes_def empty_arena_def bytes_of_def)
  from Arena_Allocate_no_overlap [OF fresh_bump_allocator cur run]
  have d: "\<forall>i j. i < j \<and> j < length ?rs \<longrightarrow> bytes_of (?rs ! i) \<inter> bytes_of (?rs ! j) = {}"
    by (rule conjunct2 [THEN conjunct2])
  from d [rule_format, of 0 1] d [rule_format, of 2 4] example_requests
  show ?thesis by simp
qed

section \<open>What Contains and Seek compute on every list\<close>

text \<open>
  On a list that satisfies the invariant, \<open>Contains\<close> returns true when a node with an
  equal key exists, and the value of \<open>flase\<close> otherwise; the result of \<open>Seek\<close> never depends
  on its argument.
\<close>

lemma Contains_spec:
  fixes sl :: "('k, 'r) SkipList"
  assumes ok: "comparator_ok compare" and inv: "skiplist_inv compare sl chain"
  shows "Contains flase compare sl k
     = Some (Inr (if \<exists>a \<in> set chain. compare k (key (arena sl ! a)) = 0 then True else flase))"
proof -
  let ?x = "List.find (\<lambda>a. compare (key (arena sl ! a)) k \<ge> 0) chain"
  have len: "\<forall>p. (None :: ptr list option) = Some p \<longrightarrow> max_height sl \<le> int (length p)"
    by simp
  from FindGreaterOrEqual_spec [OF ok inv len, of k]
  have r: "FindGreaterOrEqual compare sl k None = Some (Inr (?x, None))"
    by (elim exE conjE) simp
  have s: "set (head sl # chain) = {..<length (arena sl)}"
    using inv by (simp add: skiplist_inv_def skiplist_shape_def)
  have srt: "keys_increasing compare (arena sl) chain" using inv by (simp add: skiplist_inv_def)
  show ?thesis
  proof (cases "\<exists>a \<in> set chain. compare k (key (arena sl ! a)) = 0")
    case True
    from found_equal [OF ok srt True] obtain x where
      f: "?x = Some x" and xc: "x \<in> set chain" and xk: "compare k (key (arena sl ! x)) = 0"
      by (elim exE conjE)
    have "x < length (arena sl)" using xc s by auto
    with True f xk show ?thesis unfolding Contains_def r by (simp add: Equal_def)
  next
    case False
    show ?thesis
    proof (cases ?x)
      case None
      with False show ?thesis unfolding Contains_def r by simp
    next
      case (Some x)
      then have xc: "x \<in> set chain" by (auto simp: find_Some_iff)
      then have "x < length (arena sl)" using s by auto
      moreover have "compare k (key (arena sl ! x)) \<noteq> 0" using False xc by blast
      ultimately show ?thesis using False Some unfolding Contains_def r by (simp add: Equal_def)
    qed
  qed
qed

lemma Seek_target_unused: "Seek compare sl it target = Seek compare sl it target'"
  by (simp add: Seek_def)

end
